theory Spec2Isabelle
  imports Complex_Main "HOL-Library.Word" "HOL-Library.Code_Target_Numeral"
begin

unbundle bit_operations_syntax

section \<open>The geohash package (geohash.go)\<close>

text \<open>
  A shallow embedding of the Go package \<^verbatim>\<open>geohash\<close>. Integers of fixed width are words
  (\<^typ>\<open>32 word\<close> for \<^verbatim>\<open>uint32\<close>, \<^typ>\<open>64 word\<close> for \<^verbatim>\<open>uint64\<close>), Go strings are byte
  lists (\<^typ>\<open>string\<close>), loop counters of type \<^verbatim>\<open>int\<close> that stay below 33 are naturals.

  A finite \<^verbatim>\<open>float64\<close> is the real number it denotes. An operation of the code whose
  exact result need not be a \<^verbatim>\<open>float64\<close> is followed by the rounding \<open>fl64\<close> below; the
  operations that are exact on every value they meet here are written without it: a
  comparison, \<^verbatim>\<open>math.Floor\<close>, a product with a power of two (\<^verbatim>\<open>1 << 32 * value\<close>,
  \<^verbatim>\<open>r *= 2\<close>), and the whole arithmetic of \<^verbatim>\<open>Decode\<close>, whose intermediate results are
  multiples of \<open>2 ^ - 32\<close> below \<open>2 ^ 9\<close>. Only \<^verbatim>\<open>BoundingBox\<close>, which calls
  \<^verbatim>\<open>math.Cos\<close>, is kept on exact reals. \<^verbatim>\<open>ParseCoordinate\<close>, whose comparisons see the
  special values that \<^verbatim>\<open>strconv.ParseFloat\<close> can return, works on the type \<open>float64\<close>
  below.
\<close>

subsection \<open>Rounding to float64\<close>

text \<open>
  IEEE 754 binary64, round to nearest, ties to even: \<open>rne\<close> rounds a real to an integer,
  and \<open>fl64\<close> rounds to a multiple of the spacing \<open>ulp\<close> of the \<^verbatim>\<open>float64\<close> values around
  its argument: 53 significant bits, and the fixed spacing \<open>2 ^ - 1074\<close> below
  \<open>2 ^ - 1022\<close>. Overflow to an infinity does not occur on the values rounded here.
\<close>

definition rne :: "real \<Rightarrow> int" where
  "rne x =
     (let n = \<lfloor>x\<rfloor>; d = x - of_int n in
      if d < 1 / 2 then n else if 1 / 2 < d then n + 1 else if even n then n else n + 1)"

text \<open>The binary exponent \<open>\<lfloor>log 2 a\<rfloor>\<close> of a positive real, by halving and doubling.\<close>

function exponent :: "real \<Rightarrow> int" where
  "exponent a =
     (if a \<le> 0 then 0
      else if 2 \<le> a then exponent (a / 2) + 1
      else if a < 1 then exponent (a * 2) - 1
      else 0)"
  by pat_completeness auto
termination
proof (relation "measure (\<lambda>a. nat \<bar>\<lfloor>log 2 a\<rfloor>\<bar>)")
  show "wf (measure (\<lambda>a. nat \<bar>\<lfloor>log 2 a\<rfloor>\<bar>))" by simp
next
  fix a :: real
  assume a: "\<not> a \<le> 0" "2 \<le> a"
  define k where "k = \<lfloor>log 2 a\<rfloor>"
  have "log 2 (a / 2) = log 2 a - 1" using a by (simp add: log_divide)
  then have "\<lfloor>log 2 (a / 2)\<rfloor> = k - 1" by (simp add: k_def)
  moreover have "1 \<le> log 2 a" using a by (simp add: le_log_iff)
  then have "1 \<le> k" unfolding k_def by (simp add: le_floor_iff)
  ultimately have "nat \<bar>\<lfloor>log 2 (a / 2)\<rfloor>\<bar> < nat \<bar>k\<bar>" by simp
  then show "(a / 2, a) \<in> measure (\<lambda>a. nat \<bar>\<lfloor>log 2 a\<rfloor>\<bar>)" by (simp add: k_def)
next
  fix a :: real
  assume a: "\<not> a \<le> 0" "\<not> 2 \<le> a" "a < 1"
  define k where "k = \<lfloor>log 2 a\<rfloor>"
  have "log 2 (a * 2) = log 2 a + 1" using a by (simp add: log_mult)
  then have "\<lfloor>log 2 (a * 2)\<rfloor> = k + 1" by (simp add: k_def)
  moreover have "log 2 a < 0" using a by simp
  then have "k < 0" unfolding k_def by (simp add: floor_less_iff)
  ultimately have "nat \<bar>\<lfloor>log 2 (a * 2)\<rfloor>\<bar> < nat \<bar>k\<bar>" by simp
  then show "(a * 2, a) \<in> measure (\<lambda>a. nat \<bar>\<lfloor>log 2 a\<rfloor>\<bar>)" by (simp add: k_def)
qed

definition fl64 :: "real \<Rightarrow> real" where
  "fl64 x =
     (if x = 0 then 0
      else
        (let e = max (exponent \<bar>x\<bar>) (- 1022);
             ulp = (if 52 \<le> e then 2 ^ nat (e - 52) else 1 / 2 ^ nat (52 - e))
         in ulp * of_int (rne (x / ulp))))"

subsection \<open>Constants\<close>

text \<open>
  \<open>mercatorMax\<close> is compared with a \<^verbatim>\<open>float64\<close>, so it is the \<^verbatim>\<open>float64\<close> nearest to the
  decimal \<open>20037.73\<close>. The two lengths of a degree are used by \<^verbatim>\<open>BoundingBox\<close> only.
\<close>

definition minLat :: real where "minLat = - 90"
definition maxLat :: real where "maxLat = 90"
definition minLong :: real where "minLong = - 180"
definition maxLong :: real where "maxLong = 180"

definition alphabet :: string where
  "alphabet = ''0123456789bcdefghjkmnpqrstuvwxyz''"

definition mercatorMax :: real where "mercatorMax = fl64 20037.73"
definition lenOfADegreeOfLat :: real where "lenOfADegreeOfLat = 1111 / 10"
definition lenOfADegreeOfLng :: real where "lenOfADegreeOfLng = 111320 / 1000"
definition maxLength :: nat where "maxLength = 12"

subsection \<open>Errors and panics as values\<close>

datatype error =
    InvalidFormat                \<comment> \<open>\<^verbatim>\<open>Error: Invalid coordinates format. Use "lat, lng".\<close>\<close>
  | NumError string              \<comment> \<open>the error of \<^verbatim>\<open>strconv.ParseFloat\<close>, passed through\<close>
  | LatitudeOutOfRange           \<comment> \<open>\<^verbatim>\<open>latitude must be in the range [-90, 90]\<close>\<close>
  | LongitudeOutOfRange          \<comment> \<open>\<^verbatim>\<open>longitude must be in the range [-180, 180]\<close>\<close>
  | InvalidCharacter nat nat     \<comment> \<open>\<^verbatim>\<open>invalid character %s at index %d\<close>: the rune and its byte index\<close>
  | IndexOutOfRange              \<comment> \<open>the run-time panic of an index expression\<close>

subsection \<open>ParseCoordinate\<close>

text \<open>
  The values a \<^verbatim>\<open>float64\<close> returned by \<^verbatim>\<open>strconv.ParseFloat\<close> can take, with the
  comparison \<^verbatim>\<open><\<close> of Go: every comparison with NaN is false.
\<close>

datatype float64 = Finite real | PosInf | NegInf | NaN

fun f64_less :: "float64 \<Rightarrow> float64 \<Rightarrow> bool" where
  "f64_less (Finite a) (Finite b) = (a < b)"
| "f64_less NaN _ = False"
| "f64_less _ NaN = False"
| "f64_less NegInf NegInf = False"
| "f64_less NegInf _ = True"
| "f64_less _ NegInf = False"
| "f64_less PosInf _ = False"
| "f64_less _ PosInf = True"

text \<open>\<^verbatim>\<open>strings.Split(s, sep)\<close> for a separator of one byte: one part more than separators.\<close>

fun Split :: "string \<Rightarrow> char \<Rightarrow> string list" where
  "Split [] sep = [[]]"
| "Split (c # cs) sep =
     (if c = sep then [] # Split cs sep
      else (case Split cs sep of p # ps \<Rightarrow> (c # p) # ps | [] \<Rightarrow> [[c]]))"

text \<open>
  \<^verbatim>\<open>strings.TrimSpace\<close> and \<^verbatim>\<open>strconv.ParseFloat(_, 64)\<close> belong to the Go library, not to
  this package: they are parameters of the model.
\<close>

definition ParseCoordinate ::
  "(string \<Rightarrow> string) \<Rightarrow> (string \<Rightarrow> error + float64) \<Rightarrow> string \<Rightarrow> error + (float64 \<times> float64)"
where
  "ParseCoordinate TrimSpace ParseFloat coords =
     (let parts = Split coords (CHR '','') in
      if length parts \<noteq> 2 then Inl InvalidFormat
      else
        let latStr = parts ! 0; longStr = parts ! 1 in
        case ParseFloat (TrimSpace latStr) of
          Inl err \<Rightarrow> Inl err
        | Inr lat \<Rightarrow>
           (case ParseFloat (TrimSpace longStr) of
              Inl err \<Rightarrow> Inl err
            | Inr lng \<Rightarrow>
                if f64_less lat (Finite minLat) \<or> f64_less (Finite maxLat) lat
                  then Inl LatitudeOutOfRange
                else if f64_less lng (Finite minLong) \<or> f64_less (Finite maxLong) lng
                  then Inl LongitudeOutOfRange
                else Inr (lat, lng)))"

subsection \<open>Encode\<close>

text \<open>
  \<^verbatim>\<open>uint32(math.Floor(1 << 32 * value))\<close>. The conversion of a floating-point value that
  \<^verbatim>\<open>uint32\<close> cannot represent succeeds in Go with an implementation-dependent result; that
  result is the parameter \<open>conv\<close>. The gc compiler on amd64 converts to \<^verbatim>\<open>int64\<close> and
  keeps the low 32 bits; a value that \<^verbatim>\<open>int64\<close> cannot hold converts to
  \<^verbatim>\<open>0x8000000000000000\<close>, whose low 32 bits are zero. That is \<open>truncate64\<close>. The product
  with \<open>2 ^ 32\<close> and the floor are exact.
\<close>

definition mapTo32Bits :: "(int \<Rightarrow> 32 word) \<Rightarrow> real \<Rightarrow> 32 word" where
  "mapTo32Bits conv v =
     (let n = \<lfloor>2 ^ 32 * v\<rfloor> in
      if 0 \<le> n \<and> n < 2 ^ 32 then word_of_int n else conv n)"

definition truncate64 :: "int \<Rightarrow> 32 word" where
  "truncate64 n = (if - (2 ^ 63) \<le> n \<and> n < 2 ^ 63 then word_of_int n else 0)"

function interleave32Bits_loop :: "nat \<Rightarrow> 32 word \<Rightarrow> 32 word \<Rightarrow> 64 word \<Rightarrow> 64 word" where
  "interleave32Bits_loop i lat32 lng32 result =
     (if i < 32 then
        interleave32Bits_loop (i + 1) lat32 lng32
          ((result OR push_bit i (ucast lat32 AND push_bit i 1))
             OR push_bit (i + 1) (ucast lng32 AND push_bit i 1))
      else result)"
  by pat_completeness auto
termination
  by (relation "measure (\<lambda>(i, lat32, lng32, result). 32 - i)") auto

definition interleave32Bits :: "32 word \<Rightarrow> 32 word \<Rightarrow> 64 word" where
  "interleave32Bits lat32 lng32 = interleave32Bits_loop 0 lat32 lng32 0"

text \<open>The index expression \<^verbatim>\<open>alphabet[chunk]\<close> panics when the index is out of range.\<close>

function uint64ToBase32_loop :: "nat \<Rightarrow> 64 word \<Rightarrow> string \<Rightarrow> error + string" where
  "uint64ToBase32_loop i v result =
     (if i < 12 then
        (let chunk = drop_bit (64 - 5) v in
         if unat chunk < length alphabet
         then uint64ToBase32_loop (i + 1) (push_bit 5 v) (result @ [alphabet ! unat chunk])
         else Inl IndexOutOfRange)
      else Inr result)"
  by pat_completeness auto
termination
  by (relation "measure (\<lambda>(i, v, result). 12 - i)") auto

definition uint64ToBase32 :: "64 word \<Rightarrow> error + string" where
  "uint64ToBase32 v = uint64ToBase32_loop 0 v []"

text \<open>
  In \<^verbatim>\<open>(lat - minLat) / (maxLat - minLat)\<close> the subtraction of the variable and the
  division are \<^verbatim>\<open>float64\<close> operations and round; the divisor is a constant expression,
  which the compiler evaluates exactly.
\<close>

definition Encode :: "(int \<Rightarrow> 32 word) \<Rightarrow> real \<Rightarrow> real \<Rightarrow> error + string" where
  "Encode conv lat lng =
     (let lat32 = mapTo32Bits conv (fl64 (fl64 (lat - minLat) / (maxLat - minLat)));
          long32 = mapTo32Bits conv (fl64 (fl64 (lng - minLong) / (maxLong - minLong)));
          geohashInt = interleave32Bits lat32 long32;
          geohashStr = uint64ToBase32 geohashInt
      in geohashStr)"

subsection \<open>Ranging over a string\<close>

text \<open>
  \<^verbatim>\<open>for i, c := range hash\<close> decodes UTF-8: it yields the byte index and the code point of
  each rune, and \<^verbatim>\<open>0xFFFD\<close> with a step of one byte where the bytes are not a valid
  encoding. \<open>decodeRune\<close> returns the rune at the head of a string and its width in bytes.
\<close>

definition RuneError :: nat where "RuneError = 65533"

definition cont_byte :: "char \<Rightarrow> bool" where
  "cont_byte c = (128 \<le> (of_char c :: nat) \<and> (of_char c :: nat) < 192)"

fun decodeRune :: "string \<Rightarrow> nat \<times> nat" where
  "decodeRune [] = (RuneError, 0)"
| "decodeRune (c0 # cs) =
     (let b0 = (of_char c0 :: nat) in
      if b0 < 128 then (b0, 1)
      else if 194 \<le> b0 \<and> b0 < 224 then
        (case cs of
           c1 # _ \<Rightarrow>
             if cont_byte c1 then ((b0 mod 32) * 64 + of_char c1 mod 64, 2)
             else (RuneError, 1)
         | _ \<Rightarrow> (RuneError, 1))
      else if 224 \<le> b0 \<and> b0 < 240 then
        (case cs of
           c1 # c2 # _ \<Rightarrow>
             if (if b0 = 224 then 160 else 128) \<le> (of_char c1 :: nat)
                \<and> (of_char c1 :: nat) \<le> (if b0 = 237 then 159 else 191) \<and> cont_byte c2
             then ((b0 mod 16) * 4096 + (of_char c1 mod 64) * 64 + of_char c2 mod 64, 3)
             else (RuneError, 1)
         | _ \<Rightarrow> (RuneError, 1))
      else if 240 \<le> b0 \<and> b0 < 245 then
        (case cs of
           c1 # c2 # c3 # _ \<Rightarrow>
             if (if b0 = 240 then 144 else 128) \<le> (of_char c1 :: nat)
                \<and> (of_char c1 :: nat) \<le> (if b0 = 244 then 143 else 191)
                \<and> cont_byte c2 \<and> cont_byte c3
             then ((b0 mod 8) * 262144 + (of_char c1 mod 64) * 4096
                    + (of_char c2 mod 64) * 64 + of_char c3 mod 64, 4)
             else (RuneError, 1)
         | _ \<Rightarrow> (RuneError, 1))
      else (RuneError, 1))"

function range_from :: "nat \<Rightarrow> string \<Rightarrow> (nat \<times> nat) list" where
  "range_from i s =
     (if s = [] then []
      else (let cw = decodeRune s in (i, fst cw) # range_from (i + snd cw) (drop (snd cw) s)))"
  by pat_completeness auto
termination
proof (relation "measure (\<lambda>(i, s). length s)")
  show "wf (measure (\<lambda>(i, s). length s))" by simp
next
  fix i :: nat and s :: string and cw :: "nat \<times> nat"
  assume ne: "s \<noteq> []" and cw: "cw = decodeRune s"
  have "1 \<le> snd (decodeRune s)"
    using ne by (cases s) (auto simp: Let_def split: list.splits)
  then show "((i + snd cw, drop (snd cw) s), (i, s)) \<in> measure (\<lambda>(i, s). length s)"
    using ne cw by (cases s) auto
qed

definition range_string :: "string \<Rightarrow> (nat \<times> nat) list" where
  "range_string s = range_from 0 s"

text \<open>
  \<^verbatim>\<open>strings.Index(s, string(c))\<close> for a rune \<open>c\<close>: the index of the first occurrence, or
  \<open>-1\<close>. The alphabet holds ASCII bytes only, and the encoding of a rune from \<open>128\<close> on
  has no ASCII byte, so such a rune is not found.
\<close>

fun IndexByte :: "string \<Rightarrow> char \<Rightarrow> int" where
  "IndexByte [] c = - 1"
| "IndexByte (x # xs) c =
     (if x = c then 0 else (let r = IndexByte xs c in if r = - 1 then - 1 else r + 1))"

definition alphabetIndex :: "nat \<Rightarrow> int" where
  "alphabetIndex c = (if c < 128 then IndexByte alphabet (char_of c) else - 1)"

subsection \<open>ParseGeohash and Decode\<close>

fun ParseGeohash_loop :: "(nat \<times> nat) list \<Rightarrow> error option" where
  "ParseGeohash_loop [] = None"
| "ParseGeohash_loop ((i, c) # rest) =
     (let index = alphabetIndex c in
      if index = - 1 then Some (InvalidCharacter c i) else ParseGeohash_loop rest)"

definition ParseGeohash :: "string \<Rightarrow> error option" where
  "ParseGeohash hash = ParseGeohash_loop (range_string hash)"

text \<open>\<^verbatim>\<open>uint64(index)\<close> of the \<^verbatim>\<open>int\<close> index wraps: \<open>-1\<close> becomes the word of all ones.\<close>

fun Base32ToUint64_loop :: "(nat \<times> nat) list \<Rightarrow> 64 word \<Rightarrow> 64 word" where
  "Base32ToUint64_loop [] result = result"
| "Base32ToUint64_loop ((i, c) # rest) result =
     (let index = alphabetIndex c in
      Base32ToUint64_loop rest (push_bit 5 result OR word_of_int index))"

definition Base32ToUint64 :: "string \<Rightarrow> 64 word" where
  "Base32ToUint64 hash =
     push_bit (64 - 5 * maxLength) (Base32ToUint64_loop (range_string hash) 0)"

function DeInterleave64Bits_loop ::
  "nat \<Rightarrow> 64 word \<Rightarrow> 32 word \<Rightarrow> 32 word \<Rightarrow> 32 word \<times> 32 word"
where
  "DeInterleave64Bits_loop i v lat32 lng32 =
     (if i < 32 then
        DeInterleave64Bits_loop (i + 1) v
          (lat32 OR push_bit i (ucast (drop_bit (i * 2) v AND 1)))
          (lng32 OR push_bit i (ucast (drop_bit (i * 2 + 1) v AND 1)))
      else (lat32, lng32))"
  by pat_completeness auto
termination
  by (relation "measure (\<lambda>(i, v, lat32, lng32). 32 - i)") auto

definition DeInterleave64Bits :: "64 word \<Rightarrow> 32 word \<times> 32 word" where
  "DeInterleave64Bits v = DeInterleave64Bits_loop 0 v 0 0"

definition Decode :: "string \<Rightarrow> real \<times> real" where
  "Decode hash =
     (let v = Base32ToUint64 hash;
          (lat32, lng32) = DeInterleave64Bits v;
          lat = real (unat lat32) / 2 ^ 32 * (maxLat - minLat) + minLat;
          lng = real (unat lng32) / 2 ^ 32 * (maxLong - minLong) + minLong
      in (lat, lng))"

subsection \<open>BoundingBox\<close>

text \<open>
  The package's \<^verbatim>\<open>BoundingBox\<close>, and the one of the second copy of the codec bundled with
  the repository (\<open>BoundingBox_copy\<close>), which differs in the order of the results.
  Both are on exact reals, without rounding. At a latitude whose exact cosine is zero the
  model divides by zero, which is \<open>0\<close> in HOL, where the code divides by the tiny nonzero
  cosine that \<^verbatim>\<open>math.Cos\<close> returns: the model says nothing there, and the theorems below
  evaluate at the equator.
\<close>

definition BoundingBox :: "real \<Rightarrow> real \<Rightarrow> real \<Rightarrow> real \<times> real \<times> real \<times> real" where
  "BoundingBox lat lng r =
     (let deltaLat = r / lenOfADegreeOfLat;
          kmInLongitudeDegree = lenOfADegreeOfLng * cos (lat / 180 * pi);
          deltaLng = r / kmInLongitudeDegree;
          min_lat = lat - deltaLat;
          max_lat = lat + deltaLat;
          min_lng = lng - deltaLng;
          max_lng = lng + deltaLng
      in (min_lat, min_lng, max_lat, max_lng))"

definition BoundingBox_copy :: "real \<Rightarrow> real \<Rightarrow> real \<Rightarrow> real \<times> real \<times> real \<times> real" where
  "BoundingBox_copy lat lng r =
     (let deltaLat = r / lenOfADegreeOfLat;
          kmInLongitudeDegree = lenOfADegreeOfLng * cos (lat / 180 * pi);
          deltaLng = r / kmInLongitudeDegree;
          min_lat = lat - deltaLat;
          max_lat = lat + deltaLat;
          min_lng = lng - deltaLng;
          max_lng = lng + deltaLng
      in (min_lat, max_lat, min_lng, max_lng))"

subsection \<open>EstimateLengthRequired\<close>

text \<open>
  The loop \<^verbatim>\<open>for r < mercatorMax { r *= 2; p += 2 }\<close> has no bound on its iterations, so
  it is a partial function: \<open>None\<close> is the run that never leaves the loop. Doubling a
  \<^verbatim>\<open>float64\<close> below \<open>mercatorMax\<close> is exact, and so is the comparison. The counter
  \<open>p\<close> is an \<^verbatim>\<open>int\<close> of Go; it stays far below \<open>2 ^ 63\<close> on every \<^verbatim>\<open>float64\<close>, and is
  never negative, so \<^verbatim>\<open>p / 5\<close> is \<open>p div 5\<close>.
\<close>

partial_function (option) EstimateLengthRequired_loop :: "real \<Rightarrow> int \<Rightarrow> int option" where
  "EstimateLengthRequired_loop r p =
     (if r < mercatorMax then EstimateLengthRequired_loop (r * 2) (p + 2) else Some p)"

declare EstimateLengthRequired_loop.simps [code]

definition EstimateLengthRequired :: "real \<Rightarrow> int option" where
  "EstimateLengthRequired r =
     (if r = 0 then Some (int maxLength)
      else
        (case EstimateLengthRequired_loop r 0 of
           None \<Rightarrow> None
         | Some p \<Rightarrow>
             (let l = p div 5;
                  l = (if l < 1 then 1 else l);
                  l = (if l > int maxLength then int maxLength else l)
              in Some l)))"

section \<open>Verification\<close>

subsection \<open>Auxiliary notions\<close>

text \<open>The loops are unfolded by hand in the proofs.\<close>

declare interleave32Bits_loop.simps [simp del]
declare uint64ToBase32_loop.simps [simp del]
declare DeInterleave64Bits_loop.simps [simp del]
declare range_from.simps [simp del]
declare exponent.simps [simp del]

text \<open>The \<open>j\<close>-th chunk of five bits of a key, counted from the top.\<close>

definition chunk_at :: "64 word \<Rightarrow> nat \<Rightarrow> 64 word" where
  "chunk_at v j = drop_bit 59 (push_bit (5 * j) v)"

text \<open>The key \<^verbatim>\<open>geohashInt\<close> that \<open>Encode\<close> computes before the string conversion.\<close>

definition geohashInt :: "(int \<Rightarrow> 32 word) \<Rightarrow> real \<Rightarrow> real \<Rightarrow> 64 word" where
  "geohashInt conv lat lng =
     interleave32Bits (mapTo32Bits conv (fl64 (fl64 (lat - minLat) / (maxLat - minLat))))
       (mapTo32Bits conv (fl64 (fl64 (lng - minLong) / (maxLong - minLong))))"

subsection \<open>Rounding\<close>

lemma exponent_eq: "0 < a \<Longrightarrow> exponent a = \<lfloor>log 2 a\<rfloor>"
proof (induction a rule: exponent.induct)
  case (1 a)
  consider (big) "2 \<le> a" | (small) "a < 1" | (mid) "1 \<le> a" "a < 2" by linarith
  then show ?case
  proof cases
    case big
    with 1 have "exponent (a / 2) = \<lfloor>log 2 (a / 2)\<rfloor>" by simp
    moreover have "log 2 (a / 2) = log 2 a - 1" using 1(3) by (simp add: log_divide)
    ultimately show ?thesis
      using big 1(3) by (subst exponent.simps) simp
  next
    case small
    with 1 have "exponent (a * 2) = \<lfloor>log 2 (a * 2)\<rfloor>" by simp
    moreover have "log 2 (a * 2) = log 2 a + 1" using 1(3) by (simp add: log_mult)
    ultimately show ?thesis
      using small 1(3) by (subst exponent.simps) simp
  next
    case mid
    then have "0 \<le> log 2 a" "log 2 a < 1" by (simp_all add: log_less_iff)
    then have "\<lfloor>log 2 a\<rfloor> = 0" by (simp add: floor_eq_iff)
    with mid show ?thesis by (subst exponent.simps) simp
  qed
qed

lemma ulp_powr:
  "(if 52 \<le> e then 2 ^ nat (e - 52) else 1 / 2 ^ nat (52 - e)) = (2 :: real) powr of_int (e - 52)"
proof (cases "52 \<le> e")
  case True
  then have "of_int (e - 52) = real (nat (e - 52))" by simp
  then have "(2 :: real) powr of_int (e - 52) = 2 powr real (nat (e - 52))" by (simp only:)
  also have "\<dots> = 2 ^ nat (e - 52)" by (rule powr_realpow) simp
  finally show ?thesis using True by (simp only: if_True)
next
  case False
  then have "of_int (e - 52) = - real (nat (52 - e))" by simp
  then have "(2 :: real) powr of_int (e - 52) = 2 powr (- real (nat (52 - e)))" by (simp only:)
  also have "\<dots> = 1 / 2 powr real (nat (52 - e))" by (rule powr_minus_divide)
  also have "2 powr real (nat (52 - e)) = (2 :: real) ^ nat (52 - e)" by (rule powr_realpow) simp
  finally show ?thesis using False by (simp only: if_False)
qed

lemma fl64_log:
  "fl64 x =
     (if x = 0 then 0
      else
        (let e = max \<lfloor>log 2 \<bar>x\<bar>\<rfloor> (- 1022);
             ulp = 2 powr of_int (e - 52)
         in ulp * of_int (rne (x / ulp))))"
  by (simp add: fl64_def Let_def exponent_eq ulp_powr del: of_int_diff)

lemma rne_close: "\<bar>of_int (rne x) - x\<bar> \<le> 1 / 2"
proof -
  have "of_int \<lfloor>x\<rfloor> \<le> x" "x < of_int \<lfloor>x\<rfloor> + 1" by linarith+
  then show ?thesis by (auto simp: rne_def Let_def)
qed

lemma rne_nonneg: "0 \<le> x \<Longrightarrow> 0 \<le> rne x"
  by (auto simp: rne_def Let_def)

lemma fl64_half_ulp:
  fixes x ulp :: real
  assumes "x \<noteq> 0" and ulp: "ulp = 2 powr of_int (max \<lfloor>log 2 \<bar>x\<bar>\<rfloor> (- 1022) - 52)"
  shows "fl64 x = ulp * of_int (rne (x / ulp))" and "\<bar>fl64 x - x\<bar> \<le> ulp / 2"
proof -
  have pos: "0 < ulp" by (simp add: ulp)
  show eq: "fl64 x = ulp * of_int (rne (x / ulp))"
    using assms(1) by (simp add: fl64_log Let_def ulp)
  have "fl64 x - x = ulp * (of_int (rne (x / ulp)) - x / ulp)"
    using pos by (simp add: eq algebra_simps)
  then have "\<bar>fl64 x - x\<bar> = ulp * \<bar>of_int (rne (x / ulp)) - x / ulp\<bar>"
    using pos by (simp add: abs_mult)
  also have "\<dots> \<le> ulp * (1 / 2)"
    using pos rne_close [of "x / ulp"] by (intro mult_left_mono) simp_all
  finally show "\<bar>fl64 x - x\<bar> \<le> ulp / 2" by simp
qed

lemma fl64_error: "\<bar>fl64 x - x\<bar> \<le> \<bar>x\<bar> / 2 ^ 53 + 1 / 2 ^ 1075"
proof (cases "x = 0")
  case True
  then show ?thesis by (simp add: fl64_log)
next
  case False
  define e0 where "e0 = \<lfloor>log 2 \<bar>x\<bar>\<rfloor>"
  define ulp :: real where "ulp = 2 powr of_int (max e0 (- 1022) - 52)"
  have half: "\<bar>fl64 x - x\<bar> \<le> ulp / 2"
    by (rule fl64_half_ulp(2) [OF False]) (simp add: ulp_def e0_def)
  show ?thesis
  proof (cases "- 1022 \<le> e0")
    case True
    have "of_int e0 \<le> log 2 \<bar>x\<bar>" by (simp add: e0_def)
    then have "2 powr of_int e0 \<le> 2 powr log 2 \<bar>x\<bar>" by (simp add: powr_mono)
    then have le: "2 powr of_int e0 \<le> \<bar>x\<bar>" using False by simp
    have "ulp = 2 powr (of_int e0 + (- 52))" using True by (simp add: ulp_def max_def)
    also have "\<dots> = 2 powr of_int e0 * 2 powr (- 52)" by (rule powr_add)
    also have "2 powr (- 52 :: real) = 1 / 2 ^ 52" by (simp add: powr_minus_divide)
    finally have "ulp / 2 = 2 powr of_int e0 / 2 ^ 53" by simp
    also have "\<dots> \<le> \<bar>x\<bar> / 2 ^ 53" using le by (simp add: divide_right_mono)
    also have "\<dots> \<le> \<bar>x\<bar> / 2 ^ 53 + 1 / 2 ^ 1075" by simp
    finally show ?thesis using half by (rule order_trans [rotated])
  next
    case False
    then have "ulp = 2 powr (- 1074)" by (simp add: ulp_def max_def)
    also have "\<dots> = 1 / 2 ^ 1074" by (simp add: powr_minus_divide)
    finally have "ulp / 2 = 1 / 2 ^ 1075" by simp
    also have "\<dots> \<le> \<bar>x\<bar> / 2 ^ 53 + 1 / 2 ^ 1075" by simp
    finally show ?thesis using half by (rule order_trans [rotated])
  qed
qed

lemma fl64_nonneg: "0 \<le> x \<Longrightarrow> 0 \<le> fl64 x"
proof (cases "x = 0")
  case True
  then show ?thesis by (simp add: fl64_log)
next
  case False
  assume "0 \<le> x"
  define ulp :: real where "ulp = 2 powr of_int (max \<lfloor>log 2 \<bar>x\<bar>\<rfloor> (- 1022) - 52)"
  have "0 < ulp" by (simp add: ulp_def)
  with \<open>0 \<le> x\<close> have "0 \<le> rne (x / ulp)" by (intro rne_nonneg) simp
  with \<open>0 < ulp\<close> show ?thesis
    unfolding fl64_half_ulp(1) [OF False ulp_def] by simp
qed

lemma floor_log2_eq:
  assumes "2 powr of_int e \<le> \<bar>x\<bar>" "\<bar>x\<bar> < 2 powr of_int (e + 1)"
  shows "\<lfloor>log 2 \<bar>x\<bar>\<rfloor> = e"
proof -
  have pos: "0 < \<bar>x\<bar>" using assms(1) by (smt (verit) powr_gt_zero)
  have "of_int e \<le> log 2 \<bar>x\<bar>" using assms(1) pos by (simp add: le_log_iff)
  moreover have "log 2 \<bar>x\<bar> < of_int e + 1" using assms(2) pos by (simp add: log_less_iff)
  ultimately show ?thesis by (simp add: floor_eq_iff)
qed

lemma fl64_above_one:
  assumes "2 ^ k \<le> \<bar>x\<bar>" "\<bar>x\<bar> < 2 ^ Suc k" "k \<le> 52"
  shows "fl64 x = of_int (rne (x * 2 ^ (52 - k))) / 2 ^ (52 - k)"
proof -
  have "0 < \<bar>x\<bar>" using assms(1) zero_less_power [of "2 :: real" k] by linarith
  then have x: "x \<noteq> 0" by simp
  have p: "2 powr real m = (2 :: real) ^ m" for m
    by (simp add: powr_realpow)
  have "\<lfloor>log 2 \<bar>x\<bar>\<rfloor> = int k"
  proof (rule floor_log2_eq)
    show "2 powr of_int (int k) \<le> \<bar>x\<bar>" using assms(1) by (simp add: p)
    have "of_int (int k + 1) = real (Suc k)" by simp
    then have "2 powr of_int (int k + 1) = (2 :: real) ^ Suc k" by (simp only: p)
    then show "\<bar>x\<bar> < 2 powr of_int (int k + 1)" using assms(2) by simp
  qed
  moreover have "2 powr (of_int (int k - 52)) = 1 / (2 :: real) ^ (52 - k)"
  proof -
    have "of_int (int k - 52) = - real (52 - k)" using assms(3) by simp
    then have "2 powr (of_int (int k - 52)) = 2 powr (- real (52 - k))" by (simp only:)
    also have "\<dots> = 1 / 2 powr real (52 - k)" by (rule powr_minus_divide)
    finally show ?thesis by (simp only: p)
  qed
  moreover have "max (int k) (- 1022) = int k" by simp
  ultimately show ?thesis
    using x by (simp add: fl64_log Let_def)
qed

lemma fl64_below_one:
  assumes "1 / 2 ^ k \<le> \<bar>x\<bar>" "\<bar>x\<bar> < 2 / 2 ^ k" "k \<le> 1022"
  shows "fl64 x = of_int (rne (x * 2 ^ (52 + k))) / 2 ^ (52 + k)"
proof -
  have x: "x \<noteq> 0" using assms(1) by (smt (verit) divide_pos_pos zero_less_power)
  have p: "2 powr (- real m) = 1 / (2 :: real) ^ m" for m
    by (simp add: powr_minus_divide powr_realpow)
  have "\<lfloor>log 2 \<bar>x\<bar>\<rfloor> = - int k"
  proof (rule floor_log2_eq)
    show "2 powr of_int (- int k) \<le> \<bar>x\<bar>" using assms(1) by (simp add: p)
    have "of_int (- int k + 1) = 1 + - real k" by simp
    then have "2 powr of_int (- int k + 1) = 2 powr 1 * 2 powr (- real k)"
      by (simp only: powr_add)
    then show "\<bar>x\<bar> < 2 powr of_int (- int k + 1)" using assms(2) by (simp add: p)
  qed
  moreover have "2 powr (of_int (- int k - 52)) = 1 / (2 :: real) ^ (52 + k)"
  proof -
    have "of_int (- int k - 52) = - real (52 + k)" by simp
    then show ?thesis by (simp only: p)
  qed
  moreover have "max (- int k) (- 1022) = - int k" using assms(3) by simp
  ultimately show ?thesis
    using x by (simp add: fl64_log Let_def)
qed

lemma fl64_error_60:
  assumes "0 \<le> t" "t \<le> b"
  shows "\<bar>fl64 t - t\<bar> \<le> b / 2 ^ 53 + 1 / 2 ^ 60"
proof -
  have "\<bar>fl64 t - t\<bar> \<le> \<bar>t\<bar> / 2 ^ 53 + 1 / 2 ^ 1075" by (rule fl64_error)
  moreover have "\<bar>t\<bar> / 2 ^ 53 \<le> b / 2 ^ 53" using assms by (simp add: divide_right_mono)
  moreover have "(1 :: real) / 2 ^ 1075 \<le> 1 / 2 ^ 60" by simp
  ultimately show ?thesis by linarith
qed

lemma fraction_bounds:
  fixes w y0 :: real
  assumes w: "1 \<le> w" and y0: "0 \<le> y0" "y0 \<le> w - w / (45 * 2 ^ 46)"
  shows "0 \<le> fl64 (fl64 y0 / w)"
    and "fl64 (fl64 y0 / w) < 1"
    and "\<bar>fl64 (fl64 y0 / w) * w - y0\<bar> \<le> w / (45 * 2 ^ 46)"
proof -
  define y where "y = fl64 y0"
  define z where "z = y / w"
  define x where "x = fl64 z"
  define c :: real where "c = 1 / (45 * 2 ^ 46)"
  define d :: real where "d = 1 / 2 ^ 53 + 1 / 2 ^ 60"
  have num: "0 \<le> c" "0 \<le> d" "d + d \<le> c" "d + d < c" "d \<le> c"
    by (simp_all add: c_def d_def)
  have wpos: "0 < w" using w by simp
  have wc: "w / (45 * 2 ^ 46) = c * w" by (simp add: c_def)
  have wd: "w / 2 ^ 53 + w / 2 ^ 60 = d * w" by (simp add: d_def algebra_simps)
  have "0 \<le> c * w" using num(1) wpos by simp
  then have "y0 \<le> w" using y0(2) unfolding wc by linarith
  then have ey: "\<bar>y - y0\<bar> \<le> w / 2 ^ 53 + 1 / 2 ^ 60"
    unfolding y_def using y0(1) by (intro fl64_error_60)
  have "(1 :: real) / 2 ^ 60 \<le> w / 2 ^ 60" using w by (simp add: divide_right_mono)
  with ey have ey': "\<bar>y - y0\<bar> \<le> d * w" unfolding wd [symmetric] by linarith
  have y_nonneg: "0 \<le> y" unfolding y_def using y0(1) by (rule fl64_nonneg)
  then have z_nonneg: "0 \<le> z" unfolding z_def using wpos by simp
  have zw: "z * w = y" unfolding z_def using wpos by simp
  have "y \<le> w - c * w + d * w" using ey' y0(2) unfolding wc by linarith
  also have "\<dots> = (1 - c + d) * w" by (simp add: algebra_simps)
  finally have "z * w \<le> (1 - c + d) * w" unfolding zw .
  then have z_le: "z \<le> 1 - c + d" using wpos by simp
  then have "z \<le> 1" using num by linarith
  with z_nonneg have "\<bar>x - z\<bar> \<le> 1 / 2 ^ 53 + 1 / 2 ^ 60"
    unfolding x_def by (intro fl64_error_60)
  then have ex: "\<bar>x - z\<bar> \<le> d" by (simp only: d_def)
  have x_nonneg: "0 \<le> x" unfolding x_def using z_nonneg by (rule fl64_nonneg)
  have x_lt: "x < 1" using ex z_le num by linarith
  have "x * w - y0 = (x - z) * w + (y - y0)" unfolding zw [symmetric] by (simp add: algebra_simps)
  also have "\<bar>\<dots>\<bar> \<le> \<bar>(x - z) * w\<bar> + \<bar>y - y0\<bar>" by (rule abs_triangle_ineq)
  also have "\<bar>(x - z) * w\<bar> = \<bar>x - z\<bar> * w" using wpos by (simp add: abs_mult)
  finally have "\<bar>x * w - y0\<bar> \<le> \<bar>x - z\<bar> * w + \<bar>y - y0\<bar>" .
  moreover have "\<bar>x - z\<bar> * w \<le> d * w"
    using ex wpos by (intro mult_right_mono) simp_all
  ultimately have "\<bar>x * w - y0\<bar> \<le> (d + d) * w" using ey' by (simp add: algebra_simps)
  also have "\<dots> \<le> c * w" using num(3) wpos by (intro mult_right_mono) simp_all
  finally have err: "\<bar>x * w - y0\<bar> \<le> w / (45 * 2 ^ 46)" unfolding wc .
  show "0 \<le> fl64 (fl64 y0 / w)" using x_nonneg by (simp only: x_def z_def y_def)
  show "fl64 (fl64 y0 / w) < 1" using x_lt by (simp only: x_def z_def y_def)
  show "\<bar>fl64 (fl64 y0 / w) * w - y0\<bar> \<le> w / (45 * 2 ^ 46)"
    using err by (simp only: x_def z_def y_def)
qed

lemma fl64_exact:
  "fl64 0 = 0" "fl64 1 = 1" "fl64 (1 / 2) = 1 / 2" "fl64 90 = 90" "fl64 180 = 180" "fl64 360 = 360"
proof -
  show "fl64 360 = 360" by (subst fl64_above_one [of 8]) (simp_all add: rne_def)
  show "fl64 0 = 0" by (simp add: fl64_log)
  show "fl64 1 = 1" by (subst fl64_above_one [of 0]) (simp_all add: rne_def)
  show "fl64 (1 / 2) = 1 / 2" by (subst fl64_below_one [of 1]) (simp_all add: rne_def)
  show "fl64 90 = 90" by (subst fl64_above_one [of 6]) (simp_all add: rne_def)
  show "fl64 180 = 180" by (subst fl64_above_one [of 7]) (simp_all add: rne_def)
qed

lemma mercatorMax_eq: "mercatorMax = 5507929282308997 / 2 ^ 38"
  unfolding mercatorMax_def by (subst fl64_above_one [of 14]) (simp_all add: rne_def)

subsection \<open>Interleaving\<close>

lemma step_lat_bit:
  "bit (push_bit i ((ucast (a :: 32 word) :: 64 word) AND push_bit i 1)) n \<longleftrightarrow> (n = 2 * i \<and> i < 32 \<and> bit a i)"
proof (cases "n = 2 * i")
  case True
  then show ?thesis
    unfolding bit_push_bit_iff bit_and_iff bit_ucast_iff bit_1_iff
    by (auto simp: bit_simps dest: bit_imp_le_length)
next
  case False
  then have "\<not> (i \<le> n \<and> n - i = i)" by linarith
  with False show ?thesis
    unfolding bit_push_bit_iff bit_and_iff bit_ucast_iff bit_1_iff
    by (auto simp: bit_simps)
qed

lemma step_lng_bit:
  "bit (push_bit (i + 1) ((ucast (b :: 32 word) :: 64 word) AND push_bit i 1)) n \<longleftrightarrow> (n = 2 * i + 1 \<and> i < 32 \<and> bit b i)"
proof (cases "n = 2 * i + 1")
  case True
  then show ?thesis
    unfolding bit_push_bit_iff bit_and_iff bit_ucast_iff bit_1_iff
    by (auto simp: bit_simps dest: bit_imp_le_length)
next
  case False
  then have "\<not> (i + 1 \<le> n \<and> n - (i + 1) = i)" by linarith
  with False show ?thesis
    unfolding bit_push_bit_iff bit_and_iff bit_ucast_iff bit_1_iff
    by (auto simp: bit_simps)
qed

lemma interleave_loop_bit:
  "bit (interleave32Bits_loop i a b r) n \<longleftrightarrow>
     bit r n \<or> (i \<le> n div 2 \<and> n div 2 < 32 \<and> (if even n then bit a (n div 2) else bit b (n div 2)))"
proof (induction i a b r rule: interleave32Bits_loop.induct)
  case (1 i a b r)
  show ?case
  proof (cases "i < 32")
    case True
    have split: "i \<le> n div 2 \<longleftrightarrow> i = n div 2 \<or> i + 1 \<le> n div 2"
      by auto
    have ev: "n = 2 * i \<longleftrightarrow> even n \<and> i = n div 2" 
      by auto
    have od: "n = 2 * i + 1 \<longleftrightarrow> odd n \<and> i = n div 2"
      by (auto elim: oddE)
    have "bit (interleave32Bits_loop i a b r) n \<longleftrightarrow>
       bit ((r OR push_bit i (ucast a AND push_bit i 1)) OR push_bit (i + 1) (ucast b AND push_bit i 1)) n
        \<or> (i + 1 \<le> n div 2 \<and> n div 2 < 32 \<and> (if even n then bit a (n div 2) else bit b (n div 2)))"
      using True "1.IH" by (subst interleave32Bits_loop.simps) simp
    also have "\<dots> \<longleftrightarrow> bit r n \<or> (i \<le> n div 2 \<and> n div 2 < 32 \<and> (if even n then bit a (n div 2) else bit b (n div 2)))"
      unfolding bit_or_iff step_lat_bit step_lng_bit ev od split
      using True by (cases "even n") auto
    finally show ?thesis .
  next
    case False
    then show ?thesis
      by (subst interleave32Bits_loop.simps) auto
  qed
qed

lemma step_de_bit:
  "bit (push_bit i ((ucast (drop_bit k (v :: 64 word) AND 1)) :: 32 word)) n \<longleftrightarrow> (n = i \<and> i < 32 \<and> bit v k)"
  unfolding bit_push_bit_iff bit_and_iff bit_ucast_iff bit_1_iff bit_drop_bit_eq
  by (auto simp: bit_simps dest: bit_imp_le_length)

lemma deinterleave_loop_bit:
  "bit (fst (DeInterleave64Bits_loop i v x y)) n \<longleftrightarrow> bit x n \<or> (i \<le> n \<and> n < 32 \<and> bit v (2 * n))"
  "bit (snd (DeInterleave64Bits_loop i v x y)) n \<longleftrightarrow> bit y n \<or> (i \<le> n \<and> n < 32 \<and> bit v (2 * n + 1))"
proof (induction i v x y rule: DeInterleave64Bits_loop.induct)
  case (1 i v x y)
  have split: "i \<le> n \<longleftrightarrow> n = i \<or> i + 1 \<le> n" by auto
  {
    case 1
    show ?case
    proof (cases "i < 32")
      case True
      then show ?thesis
        using "1.IH"(1) unfolding split
        by (subst DeInterleave64Bits_loop.simps) (auto simp: bit_or_iff step_de_bit mult.commute)
    next
      case False
      then show ?thesis by (subst DeInterleave64Bits_loop.simps) auto
    qed
  next
    case 2
    show ?case
    proof (cases "i < 32")
      case True
      then show ?thesis
        using "1.IH"(2) unfolding split
        by (subst DeInterleave64Bits_loop.simps) (auto simp: bit_or_iff step_de_bit mult.commute)
    next
      case False
      then show ?thesis by (subst DeInterleave64Bits_loop.simps) auto
    qed
  }
qed


lemma interleave32Bits_bit:
  "bit (interleave32Bits a b) n \<longleftrightarrow> (if even n then bit a (n div 2) else bit b (n div 2))"
  unfolding interleave32Bits_def interleave_loop_bit
  by (auto dest: bit_imp_le_length)

lemma DeInterleave64Bits_bit:
  "bit (fst (DeInterleave64Bits v)) n \<longleftrightarrow> n < 32 \<and> bit v (2 * n)"
  "bit (snd (DeInterleave64Bits v)) n \<longleftrightarrow> n < 32 \<and> bit v (2 * n + 1)"
  unfolding DeInterleave64Bits_def deinterleave_loop_bit by simp_all

text \<open>
  C2. \<open>interleave32Bits\<close> puts bit \<open>i\<close> of the latitude fraction at bit \<open>2 i\<close> of the
  key and bit \<open>i\<close> of the longitude fraction at bit \<open>2 i + 1\<close>, and
  \<open>DeInterleave64Bits\<close> is its exact inverse. The two bit equations hold for every
  \<open>i\<close>: from \<open>32\<close> on both sides are false, so no other bit of the key is set.
\<close>

theorem interleave_deinterleave_inverse:
  "bit (interleave32Bits a b) (2 * i) = bit a i
   \<and> bit (interleave32Bits a b) (2 * i + 1) = bit b i
   \<and> DeInterleave64Bits (interleave32Bits a b) = (a, b)"
proof -
  have "fst (DeInterleave64Bits (interleave32Bits a b)) = a"
    by (rule bit_eqI) (auto simp: DeInterleave64Bits_bit interleave32Bits_bit dest: bit_imp_le_length)
  moreover have "snd (DeInterleave64Bits (interleave32Bits a b)) = b"
    by (rule bit_eqI) (auto simp: DeInterleave64Bits_bit interleave32Bits_bit dest: bit_imp_le_length)
  ultimately have "DeInterleave64Bits (interleave32Bits a b) = (a, b)"
    by (simp add: prod_eq_iff)
  then show ?thesis
    by (simp add: interleave32Bits_bit)
qed

subsection \<open>The base-32 conversions\<close>

lemma length_alphabet: "length alphabet = 32"
  by (simp add: alphabet_def)

lemma chunk_bound: "unat (drop_bit 59 (v :: 64 word)) < 32"
proof -
  have "unat v < 2 ^ 64" using unsigned_less [of v] by simp
  then have "unat v div 2 ^ 59 < 32" by (simp add: less_mult_imp_div_less)
  moreover have "unat (drop_bit 59 v) = unat v div 2 ^ 59"
    by (subst unat_drop_bit_eq) (simp add: drop_bit_eq_div)
  ultimately show ?thesis by simp
qed

lemma uint64ToBase32_loop_eq:
  "i \<le> 12 \<Longrightarrow> uint64ToBase32_loop i v res =
     Inr (res @ map (\<lambda>j. alphabet ! unat (chunk_at v j)) [0..<12 - i])"
proof (induction i v res rule: uint64ToBase32_loop.induct)
  case (1 i v res)
  show ?case
  proof (cases "i < 12")
    case True
    then obtain m where m: "12 - i = Suc m" "12 - (i + 1) = m"
      by (cases "12 - i") auto
    have sh: "chunk_at (push_bit 5 v) j = chunk_at v (Suc j)" for j
      by (simp add: chunk_at_def push_bit_add [symmetric] add.commute del: push_bit_Suc)
    have c0: "chunk_at v 0 = drop_bit 59 v" by (simp add: chunk_at_def)
    have "uint64ToBase32_loop i v res =
        uint64ToBase32_loop (i + 1) (push_bit 5 v) (res @ [alphabet ! unat (drop_bit 59 v)])"
      using True chunk_bound [of v]
      by (subst uint64ToBase32_loop.simps) (simp add: length_alphabet)
    also have "\<dots> = Inr ((res @ [alphabet ! unat (drop_bit 59 v)])
         @ map (\<lambda>j. alphabet ! unat (chunk_at (push_bit 5 v) j)) [0..<m])"
      using "1.IH" [OF True refl] True chunk_bound [of v] m by (simp add: length_alphabet)
    also have "\<dots> = Inr (res @ map (\<lambda>j. alphabet ! unat (chunk_at v j)) [0..<Suc m])"
      unfolding sh by (simp add: upt_conv_Cons map_Suc_upt [symmetric] c0 del: upt_Suc)
    finally show ?thesis using m by simp
  next
    case False
    with "1.prems" have "i = 12" by simp
    then show ?thesis by (subst uint64ToBase32_loop.simps) simp
  qed
qed

lemma uint64ToBase32_eq:
  "uint64ToBase32 v = Inr (map (\<lambda>j. alphabet ! unat (chunk_at v j)) [0..<12])"
  using uint64ToBase32_loop_eq [of 0 v "[]"] by (simp add: uint64ToBase32_def)

lemma alphabet_ascii: "c \<in> set alphabet \<Longrightarrow> (of_char c :: nat) < 128"
  by (auto simp: alphabet_def)

lemma distinct_alphabet: "distinct alphabet"
  by (simp add: alphabet_def)

lemma IndexByte_nth: "distinct xs \<Longrightarrow> k < length xs \<Longrightarrow> IndexByte xs (xs ! k) = int k"
proof (induction xs arbitrary: k)
  case Nil
  then show ?case by simp
next
  case (Cons x xs)
  show ?case
  proof (cases k)
    case 0
    then show ?thesis by simp
  next
    case (Suc m)
    with Cons.prems have "xs ! m \<noteq> x" "IndexByte xs (xs ! m) = int m"
      using Cons.IH [of m] by auto
    with Suc show ?thesis by (simp add: Let_def)
  qed
qed

lemma IndexByte_notin: "IndexByte xs c = - 1 \<longleftrightarrow> c \<notin> set xs"
proof (induction xs)
  case Nil
  then show ?case by simp
next
  case (Cons x xs)
  have "- 1 \<le> IndexByte ys c" for ys
    by (induction ys) (auto simp: Let_def)
  from this [of xs] Cons show ?case by (auto simp: Let_def)
qed

lemma alphabetIndex_nth: "k < 32 \<Longrightarrow> alphabetIndex (of_char (alphabet ! k)) = int k"
proof -
  assume k: "k < 32"
  then have "alphabet ! k \<in> set alphabet" by (simp add: length_alphabet)
  then have "(of_char (alphabet ! k) :: nat) < 128" by (rule alphabet_ascii)
  then show ?thesis
    using k by (simp add: alphabetIndex_def IndexByte_nth distinct_alphabet length_alphabet)
qed

lemma alphabetIndex_neg: "alphabetIndex (of_char c) = - 1 \<longleftrightarrow> c \<notin> set alphabet"
proof (cases "(of_char c :: nat) < 128")
  case True
  then show ?thesis by (simp add: alphabetIndex_def IndexByte_notin)
next
  case False
  then show ?thesis using alphabet_ascii [of c] by (auto simp: alphabetIndex_def)
qed

lemma range_from_ascii:
  "(\<And>c. c \<in> set s \<Longrightarrow> (of_char c :: nat) < 128) \<Longrightarrow>
     range_from i s = zip [i..<i + length s] (map of_char s)"
proof (induction s arbitrary: i)
  case Nil
  then show ?case by (subst range_from.simps) simp
next
  case (Cons c s)
  have "(of_char c :: nat) < 128" using Cons.prems by simp
  then have "range_from i (c # s) = (i, of_char c) # range_from (i + 1) s"
    by (subst range_from.simps) (simp add: Let_def)
  also have "range_from (i + 1) s = zip [i + 1..<i + 1 + length s] (map of_char s)"
    using Cons.prems by (intro Cons.IH) simp
  finally show ?case by (simp add: upt_conv_Cons del: upt_Suc)
qed

lemma Base32ToUint64_loop_foldl:
  "Base32ToUint64_loop xs r =
     foldl (\<lambda>r c. push_bit 5 r OR word_of_int (alphabetIndex c)) r (map snd xs)"
  by (induction xs arbitrary: r) (auto simp: Let_def)

lemma alphabetIndex_IndexByte:
  "c \<in> set alphabet \<Longrightarrow> alphabetIndex (of_char c) = IndexByte alphabet c"
  using alphabet_ascii [of c] by (simp add: alphabetIndex_def)

lemma Base32ToUint64_valid:
  assumes "set hash \<subseteq> set alphabet"
  shows "Base32ToUint64 hash =
     push_bit 4 (foldl (\<lambda>r c. push_bit 5 r OR word_of_int (IndexByte alphabet c)) 0 hash)"
proof -
  have asc: "\<And>c. c \<in> set hash \<Longrightarrow> (of_char c :: nat) < 128"
    using assms alphabet_ascii by auto
  have "foldl (\<lambda>r c. push_bit 5 r OR word_of_int (alphabetIndex (of_char c))) r xs
      = foldl (\<lambda>r c. push_bit 5 r OR word_of_int (IndexByte alphabet c)) r xs"
    if "set xs \<subseteq> set alphabet" for xs and r :: "64 word"
    using that by (induction xs arbitrary: r) (auto simp: alphabetIndex_IndexByte)
  from this [OF assms] show ?thesis
    by (simp add: Base32ToUint64_def range_string_def range_from_ascii [OF asc]
        Base32ToUint64_loop_foldl maxLength_def foldl_map)
qed

lemma chunk_step:
  assumes "k \<le> 55"
  shows "push_bit 5 (drop_bit (64 - k) v) OR drop_bit 59 (push_bit k v)
           = drop_bit (59 - k) (v :: 64 word)"
proof (rule bit_eqI)
  fix m
  assume "possible_bit TYPE(64 word) m"
  then have m: "m < 64" by (simp add: possible_bit_word)
  have L1: "bit (push_bit 5 (drop_bit (64 - k) v)) m \<longleftrightarrow> 5 \<le> m \<and> bit v (64 - k + (m - 5))"
    using m by (simp add: bit_push_bit_iff bit_drop_bit_eq possible_bit_word)
  have L2: "bit (drop_bit 59 (push_bit k v)) m \<longleftrightarrow> m < 5 \<and> bit v (59 + m - k)"
    using m assms by (auto simp add: bit_push_bit_iff bit_drop_bit_eq possible_bit_word)
  have R: "bit (drop_bit (59 - k) v) m \<longleftrightarrow> bit v (59 - k + m)"
    by (simp add: bit_drop_bit_eq)
  have e1: "5 \<le> m \<Longrightarrow> 64 - k + (m - 5) = 59 - k + m"
    using assms by linarith
  have e2: "59 + m - k = 59 - k + m"
    using assms by linarith
  show "bit (push_bit 5 (drop_bit (64 - k) v) OR drop_bit 59 (push_bit k v)) m
      = bit (drop_bit (59 - k) v) m"
  proof (cases "5 \<le> m")
    case True
    then show ?thesis unfolding bit_or_iff L1 L2 R e2 by (simp only: e1) simp
  next
    case False
    then show ?thesis unfolding bit_or_iff L1 L2 R e2 by simp
  qed
qed

lemma chunks_accumulate:
  "n \<le> 12 \<Longrightarrow>
     foldl (\<lambda>r j. push_bit 5 r OR chunk_at v j) 0 [0..<n] = drop_bit (64 - 5 * n) v"
proof (induction n)
  case 0
  have "drop_bit 64 v = 0"
    by (rule bit_eqI) (auto simp: bit_drop_bit_eq dest: bit_imp_le_length)
  then show ?case by simp
next
  case (Suc n)
  from Suc.prems have n: "5 * n \<le> 55" by linarith
  from Suc.prems have "n \<le> 12" by linarith
  then have IH: "foldl (\<lambda>r j. push_bit 5 r OR chunk_at v j) 0 [0..<n] = drop_bit (64 - 5 * n) v"
    by (rule Suc.IH)
  have "5 * Suc n = 5 + 5 * n" by (rule mult_Suc_right)
  then have idx: "59 - 5 * n = 64 - 5 * Suc n" by linarith
  have "foldl (\<lambda>r j. push_bit 5 r OR chunk_at v j) 0 [0..<Suc n]
      = push_bit 5 (foldl (\<lambda>r j. push_bit 5 r OR chunk_at v j) 0 [0..<n]) OR chunk_at v n"
    by (simp only: upt_Suc_append [OF le0] foldl_append foldl.simps)
  also have "\<dots> = push_bit 5 (drop_bit (64 - 5 * n) v) OR drop_bit 59 (push_bit (5 * n) v)"
    by (simp only: IH) (simp only: chunk_at_def)
  also have "\<dots> = drop_bit (59 - 5 * n) v"
    by (rule chunk_step [OF n])
  finally show ?case by (simp only: idx)
qed

lemma Base32ToUint64_uint64ToBase32:
  "uint64ToBase32 v = Inr s \<Longrightarrow> Base32ToUint64 s = push_bit 4 (drop_bit 4 v)"
proof -
  assume "uint64ToBase32 v = Inr s"
  then have s: "s = map (\<lambda>j. alphabet ! unat (chunk_at v j)) [0..<12]"
    by (simp add: uint64ToBase32_eq)
  have cb: "unat (chunk_at v j) < 32" for j
    unfolding chunk_at_def by (rule chunk_bound)
  then have sub: "set s \<subseteq> set alphabet"
    by (auto simp: s length_alphabet)
  have "IndexByte alphabet (alphabet ! unat (chunk_at v j)) = int (unat (chunk_at v j))" for j
    using cb [of j] by (simp add: IndexByte_nth distinct_alphabet length_alphabet)
  then have "foldl (\<lambda>r c. push_bit 5 r OR word_of_int (IndexByte alphabet c)) 0 s
      = foldl (\<lambda>r j. push_bit 5 r OR chunk_at v j) 0 [0..<12]"
    by (simp add: s foldl_map)
  then show ?thesis
    using chunks_accumulate [of 12 v] by (simp add: Base32ToUint64_valid [OF sub])
qed

text \<open>
  C9. For every 64-bit key \<open>uint64ToBase32\<close> returns a string of exactly 12 characters,
  each of the alphabet; the chunk of five bits it takes is below the length of the
  alphabet, so the index expression never panics; and \<open>Encode\<close>, whatever its
  arguments, returns 12 characters of the alphabet.
\<close>

theorem uint64ToBase32_alphabet_closed:
  "(\<exists>s. uint64ToBase32 v = Inr s \<and> length s = 12 \<and> set s \<subseteq> set alphabet)
   \<and> unat (drop_bit (64 - 5) v) < length alphabet
   \<and> (\<exists>s. Encode conv lat lng = Inr s \<and> length s = 12 \<and> set s \<subseteq> set alphabet)"
proof -
  have cb: "unat (chunk_at w j) < 32" for w j
    unfolding chunk_at_def by (rule chunk_bound)
  have *: "\<exists>s. uint64ToBase32 w = Inr s \<and> length s = 12 \<and> set s \<subseteq> set alphabet" for w
    using cb [of w] by (auto simp: uint64ToBase32_eq length_alphabet)
  show ?thesis
    using * [of v] * chunk_bound [of v] by (simp add: Encode_def Let_def length_alphabet)
qed

subsection \<open>Encoding and decoding\<close>

lemma Encode_via_geohashInt: "Encode conv lat lng = uint64ToBase32 (geohashInt conv lat lng)"
  by (simp add: Encode_def geohashInt_def Let_def)

lemma DeInterleave64Bits_truncated:
  "DeInterleave64Bits (push_bit 4 (drop_bit 4 (interleave32Bits a b)))
     = (push_bit 2 (drop_bit 2 a), push_bit 2 (drop_bit 2 b))"
proof -
  let ?v = "push_bit 4 (drop_bit 4 (interleave32Bits a b))"
  have two: "2 \<le> n \<Longrightarrow> Suc (Suc (n - 2)) = n" for n :: nat
    by simp
  have key: "bit ?v m \<longleftrightarrow> 4 \<le> m \<and> bit (interleave32Bits a b) m" for m
    by (auto simp: bit_push_bit_iff bit_drop_bit_eq possible_bit_word dest: bit_imp_le_length)
  have "fst (DeInterleave64Bits ?v) = push_bit 2 (drop_bit 2 a)"
  proof (rule bit_eqI)
    fix n
    show "bit (fst (DeInterleave64Bits ?v)) n = bit (push_bit 2 (drop_bit 2 a)) n"
      unfolding DeInterleave64Bits_bit key interleave32Bits_bit
      by (auto simp: bit_push_bit_iff bit_drop_bit_eq possible_bit_word two dest: bit_imp_le_length)
  qed
  moreover have "snd (DeInterleave64Bits ?v) = push_bit 2 (drop_bit 2 b)"
  proof (rule bit_eqI)
    fix n
    show "bit (snd (DeInterleave64Bits ?v)) n = bit (push_bit 2 (drop_bit 2 b)) n"
      unfolding DeInterleave64Bits_bit key interleave32Bits_bit
      by (auto simp: bit_push_bit_iff bit_drop_bit_eq possible_bit_word two dest: bit_imp_le_length)
  qed
  ultimately show ?thesis by (simp add: prod_eq_iff)
qed

lemma unat_clear_low2: "unat (push_bit 2 (drop_bit 2 (a :: 32 word))) = 4 * (unat a div 4)"
proof -
  have "unat a < 2 ^ 32" using unsigned_less [of a] by simp
  then have "4 * (unat a div 4) < 2 ^ 32" by simp
  then have "take_bit 32 (4 * (unat a div 4)) = 4 * (unat a div 4)"
    by (simp add: take_bit_nat_eq_self_iff)
  moreover have "unat (push_bit 2 (drop_bit 2 a)) = take_bit 32 (push_bit 2 (drop_bit 2 (unat a)))"
    by (subst unsigned_push_bit_eq, subst unat_drop_bit_eq) simp
  ultimately show ?thesis by (simp add: push_bit_eq_mult drop_bit_eq_div mult.commute)
qed

lemma Decode_of_Encode:
  assumes "Encode conv lat lng = Inr s"
  shows "Decode s =
    (real (4 * (unat (mapTo32Bits conv (fl64 (fl64 (lat - minLat) / (maxLat - minLat)))) div 4)) / 2 ^ 32
        * (maxLat - minLat) + minLat,
     real (4 * (unat (mapTo32Bits conv (fl64 (fl64 (lng - minLong) / (maxLong - minLong)))) div 4)) / 2 ^ 32
        * (maxLong - minLong) + minLong)"
proof -
  from assms have "uint64ToBase32 (geohashInt conv lat lng) = Inr s"
    by (simp add: Encode_via_geohashInt)
  then have "Base32ToUint64 s = push_bit 4 (drop_bit 4 (geohashInt conv lat lng))"
    by (rule Base32ToUint64_uint64ToBase32)
  then show ?thesis
    unfolding Decode_def geohashInt_def
    by (simp only: Let_def DeInterleave64Bits_truncated prod.case unat_clear_low2)
qed

lemma mapTo32Bits_in_range:
  assumes "0 \<le> x" "x < 1"
  shows "mapTo32Bits conv x = word_of_int \<lfloor>2 ^ 32 * x\<rfloor>"
    and "unat (mapTo32Bits conv x) = nat \<lfloor>2 ^ 32 * x\<rfloor>"
proof -
  have lo: "0 \<le> \<lfloor>2 ^ 32 * x\<rfloor>" using assms by simp
  have "2 ^ 32 * x < 2 ^ 32" using assms by simp
  then have hi: "\<lfloor>2 ^ 32 * x\<rfloor> < 2 ^ 32" by (simp add: floor_less_iff)
  show eq: "mapTo32Bits conv x = word_of_int \<lfloor>2 ^ 32 * x\<rfloor>"
    using lo hi by (simp add: mapTo32Bits_def Let_def)
  have "uint (word_of_int \<lfloor>2 ^ 32 * x\<rfloor> :: 32 word) = \<lfloor>2 ^ 32 * x\<rfloor>"
    using lo hi by (simp add: uint_word_of_int take_bit_int_eq_self)
  then show "unat (mapTo32Bits conv x) = nat \<lfloor>2 ^ 32 * x\<rfloor>"
    unfolding eq by (simp add: unat_eq_nat_uint)
qed

lemma quantise_bound:
  assumes "0 \<le> x" "x < 1" "0 < w"
  shows "real (4 * (nat \<lfloor>2 ^ 32 * x\<rfloor> div 4)) / 2 ^ 32 * w \<le> x * w"
    and "x * w - real (4 * (nat \<lfloor>2 ^ 32 * x\<rfloor> div 4)) / 2 ^ 32 * w < 4 * (w / 2 ^ 32)"
proof -
  define y where "y = 2 ^ 32 * x"
  define n where "n = nat \<lfloor>y\<rfloor>"
  define q where "q = 4 * (n div 4)"
  have y0: "0 \<le> y" using assms by (simp add: y_def)
  then have n1: "real n \<le> y" and n2: "y < real n + 1"
    unfolding n_def by (simp_all add: of_nat_nat)
  have "q \<le> n" "n < q + 4" unfolding q_def by presburger+
  then have "real q \<le> real n" "real n + 1 \<le> real q + 4"
    by linarith+
  with n1 n2 have q1: "real q \<le> y" and q2: "y - real q < 4" by linarith+
  have x: "x = y / 2 ^ 32" by (simp add: y_def)
  have "real q / 2 ^ 32 * w \<le> y / 2 ^ 32 * w"
    using q1 assms(3) by (simp add: divide_right_mono mult_right_mono)
  then show "real (4 * (nat \<lfloor>2 ^ 32 * x\<rfloor> div 4)) / 2 ^ 32 * w \<le> x * w"
    unfolding q_def n_def y_def by simp
  have "(y - real q) * (w / 2 ^ 32) < 4 * (w / 2 ^ 32)"
    using q2 assms(3) by (intro mult_strict_right_mono) simp_all
  then have "y / 2 ^ 32 * w - real q / 2 ^ 32 * w < 4 * (w / 2 ^ 32)"
    by (simp add: algebra_simps)
  then show "x * w - real (4 * (nat \<lfloor>2 ^ 32 * x\<rfloor> div 4)) / 2 ^ 32 * w < 4 * (w / 2 ^ 32)"
    unfolding q_def n_def y_def by simp
qed

lemma interleave_known: "interleave32Bits 2649226499 3410134836 = 16274729349917903397"
  by (simp add: interleave32Bits_def interleave32Bits_loop.simps)

lemma base32_known: "uint64ToBase32 16274729349917903397 = Inr ''w7er87fpgd52''"
  by (simp add: uint64ToBase32_def uint64ToBase32_loop.simps alphabet_def)

lemma fl64_known:
  "fl64 (21.0278 - minLat) = 7812886854808843 / 2 ^ 46"
  "fl64 (7812886854808843 / 2 ^ 46 / (maxLat - minLat)) = 5555830652308511 / 2 ^ 53"
  "fl64 (105.8342 - minLong) = 10056896848513624 / 2 ^ 45"
  "fl64 (10056896848513624 / 2 ^ 45 / (maxLong - minLong)) = 7151571092276355 / 2 ^ 53"
proof -
  have "fl64 (1110278 / 10000) = 7812886854808843 / 2 ^ 46"
    by (subst fl64_above_one [of 6]) (simp_all add: rne_def)
  then show "fl64 (21.0278 - minLat) = 7812886854808843 / 2 ^ 46"
    by (simp add: minLat_def)
  have "fl64 (7812886854808843 / 2 ^ 46 / 180) = 5555830652308511 / 2 ^ 53"
    by (subst fl64_below_one [of 1]) (simp_all add: rne_def)
  then show "fl64 (7812886854808843 / 2 ^ 46 / (maxLat - minLat)) = 5555830652308511 / 2 ^ 53"
    by (simp add: minLat_def maxLat_def)
  have "fl64 (2858342 / 10000) = 10056896848513624 / 2 ^ 45"
    by (subst fl64_above_one [of 8]) (simp_all add: rne_def)
  then show "fl64 (105.8342 - minLong) = 10056896848513624 / 2 ^ 45"
    by (simp add: minLong_def)
  have "fl64 (10056896848513624 / 2 ^ 45 / 360) = 7151571092276355 / 2 ^ 53"
    by (subst fl64_below_one [of 1]) (simp_all add: rne_def)
  then show "fl64 (10056896848513624 / 2 ^ 45 / (maxLong - minLong)) = 7151571092276355 / 2 ^ 53"
    by (simp add: minLong_def maxLong_def)
qed

lemma fl64_literals:
  "fl64 21.0278 = 1479699878819083 / 2 ^ 46"
  "fl64 105.8342 = 7447419745047727 / 2 ^ 46"
  "fl64 (1479699878819083 / 2 ^ 46 - minLat) = 7812886854808843 / 2 ^ 46"
  "fl64 (7447419745047727 / 2 ^ 46 - minLong) = 10056896848513624 / 2 ^ 45"
proof -
  show "fl64 21.0278 = 1479699878819083 / 2 ^ 46"
    by (subst fl64_above_one [of 4]) (simp_all add: rne_def)
  show "fl64 105.8342 = 7447419745047727 / 2 ^ 46"
    by (subst fl64_above_one [of 6]) (simp_all add: rne_def)
  have "fl64 (1479699878819083 / 2 ^ 46 + 90) = 7812886854808843 / 2 ^ 46"
    by (subst fl64_above_one [of 6]) (simp_all add: rne_def)
  then show "fl64 (1479699878819083 / 2 ^ 46 - minLat) = 7812886854808843 / 2 ^ 46"
    by (simp add: minLat_def)
  have "fl64 (7447419745047727 / 2 ^ 46 + 180) = 10056896848513624 / 2 ^ 45"
    by (subst fl64_above_one [of 8]) (simp_all add: rne_def)
  then show "fl64 (7447419745047727 / 2 ^ 46 - minLong) = 10056896848513624 / 2 ^ 45"
    by (simp add: minLong_def)
qed

lemma mapTo32Bits_fractions:
  "mapTo32Bits conv (5555830652308511 / 2 ^ 53) = 2649226499"
  "mapTo32Bits conv (7151571092276355 / 2 ^ 53) = 3410134836"
proof -
  have "\<lfloor>2 ^ 32 * (5555830652308511 / 2 ^ 53 :: real)\<rfloor> = 2649226499"
    "\<lfloor>2 ^ 32 * (7151571092276355 / 2 ^ 53 :: real)\<rfloor> = 3410134836"
    by (simp_all add: floor_eq_iff)
  then show "mapTo32Bits conv (5555830652308511 / 2 ^ 53) = 2649226499"
    "mapTo32Bits conv (7151571092276355 / 2 ^ 53) = 3410134836"
    unfolding mapTo32Bits_def by simp_all
qed

lemma mapTo32Bits_known:
  "mapTo32Bits conv (fl64 (fl64 (21.0278 - minLat) / (maxLat - minLat))) = 2649226499"
  "mapTo32Bits conv (fl64 (fl64 (105.8342 - minLong) / (maxLong - minLong))) = 3410134836"
  unfolding fl64_known mapTo32Bits_fractions by (rule refl)+

lemma mapTo32Bits_known_float64:
  "mapTo32Bits conv (fl64 (fl64 (fl64 21.0278 - minLat) / (maxLat - minLat))) = 2649226499"
  "mapTo32Bits conv (fl64 (fl64 (fl64 105.8342 - minLong) / (maxLong - minLong))) = 3410134836"
  unfolding fl64_literals fl64_known mapTo32Bits_fractions by (rule refl)+

lemma geohashInt_known: "geohashInt conv 21.0278 105.8342 = 16274729349917903397"
  unfolding geohashInt_def mapTo32Bits_known by (rule interleave_known)

lemma Encode_known: "Encode conv 21.0278 105.8342 = Inr ''w7er87fpgd52''"
  unfolding Encode_via_geohashInt geohashInt_known by (rule base32_known)

lemma Encode_known_float64: "Encode conv (fl64 21.0278) (fl64 105.8342) = Inr ''w7er87fpgd52''"
  unfolding Encode_via_geohashInt geohashInt_def mapTo32Bits_known_float64 interleave_known
  by (rule base32_known)

lemma Decode_known:
  "Decode ''w7er87fpgd52'' = (2649226496 / 2 ^ 32 * 180 - 90, 3410134836 / 2 ^ 32 * 360 - 180)"
  unfolding Decode_of_Encode [OF Encode_known [of truncate64]] mapTo32Bits_known
  by (simp add: minLat_def maxLat_def minLong_def maxLong_def)

text \<open>
  C4. \<open>Encode 21.0278 105.8342\<close> is exactly \<open>w7er87fpgd52\<close>, and \<open>Decode\<close> of that
  string is \<open>(21.0278, 105.8342)\<close> once each component is rounded to 4 decimal places.
  The string is the same from the two decimals and from the \<^verbatim>\<open>float64\<close> values nearest to
  them, which are what the Go literals denote.
\<close>

theorem known_vector:
  "Encode conv 21.0278 105.8342 = Inr ''w7er87fpgd52''
   \<and> round (fst (Decode ''w7er87fpgd52'') * 10 ^ 4) = 210278
   \<and> round (snd (Decode ''w7er87fpgd52'') * 10 ^ 4) = 1058342
   \<and> Encode conv (fl64 21.0278) (fl64 105.8342) = Inr ''w7er87fpgd52''"
proof (intro conjI)
  show "Encode conv (fl64 21.0278) (fl64 105.8342) = Inr ''w7er87fpgd52''"
    by (rule Encode_known_float64)
  show "Encode conv 21.0278 105.8342 = Inr ''w7er87fpgd52''"
    by (rule Encode_known)
  show "round (fst (Decode ''w7er87fpgd52'') * 10 ^ 4) = 210278"
    unfolding Decode_known by (simp add: round_def floor_eq_iff)
  show "round (snd (Decode ''w7er87fpgd52'') * 10 ^ 4) = 1058342"
    unfolding Decode_known by (simp add: round_def floor_eq_iff)
qed

text \<open>
  C1, as stated, fails: on the known vector the latitude that comes back is more than
  \<open>180 / 2 ^ 32\<close> below the one that went in (by 3.7 times that step), because the
  string keeps the top 60 bits of the key only.
\<close>

theorem Decode_Encode_counterexample:
  "Encode truncate64 21.0278 105.8342 = Inr ''w7er87fpgd52''
   \<and> \<not> \<bar>fst (Decode ''w7er87fpgd52'') - 21.0278\<bar> \<le> 180 / 2 ^ 32"
proof (intro conjI)
  show "Encode truncate64 21.0278 105.8342 = Inr ''w7er87fpgd52''"
    by (rule Encode_known)
  show "\<not> \<bar>fst (Decode ''w7er87fpgd52'') - 21.0278\<bar> \<le> 180 / 2 ^ 32"
    unfolding Decode_known by simp
qed

text \<open>
  C3, as stated, fails: the key of the known vector ends in the bits \<open>0101\<close>, and the
  string does not convert back to that key.
\<close>

theorem geohashInt_low_bits_counterexample:
  "geohashInt truncate64 21.0278 105.8342 AND 15 = 5
   \<and> Encode truncate64 21.0278 105.8342 = Inr ''w7er87fpgd52''
   \<and> Base32ToUint64 ''w7er87fpgd52'' \<noteq> geohashInt truncate64 21.0278 105.8342"
proof (intro conjI)
  show "geohashInt truncate64 21.0278 105.8342 AND 15 = 5"
    unfolding geohashInt_known by simp
  show "Encode truncate64 21.0278 105.8342 = Inr ''w7er87fpgd52''"
    by (rule Encode_known)
  show "Base32ToUint64 ''w7er87fpgd52'' \<noteq> geohashInt truncate64 21.0278 105.8342"
    unfolding geohashInt_known Base32ToUint64_uint64ToBase32 [OF base32_known] by simp
qed

text \<open>
  C3, amended. The key inside \<open>Encode\<close> is handed to the string conversion as it is; its
  low 4 bits are bits 0 and 1 of the latitude fraction (at key bits 0 and 2) and of the
  longitude fraction (at key bits 1 and 3), whatever they are; and the 12 characters hold
  the top 60 bits exactly: converting the string back gives the key with its low 4 bits
  cleared.
\<close>

theorem geohashInt_low_bits:
  "Encode conv lat lng = uint64ToBase32 (geohashInt conv lat lng)
   \<and> bit (geohashInt conv lat lng) 0 = bit (mapTo32Bits conv (fl64 (fl64 (lat - minLat) / (maxLat - minLat)))) 0
   \<and> bit (geohashInt conv lat lng) 1 = bit (mapTo32Bits conv (fl64 (fl64 (lng - minLong) / (maxLong - minLong)))) 0
   \<and> bit (geohashInt conv lat lng) 2 = bit (mapTo32Bits conv (fl64 (fl64 (lat - minLat) / (maxLat - minLat)))) 1
   \<and> bit (geohashInt conv lat lng) 3 = bit (mapTo32Bits conv (fl64 (fl64 (lng - minLong) / (maxLong - minLong)))) 1
   \<and> (\<exists>s. Encode conv lat lng = Inr s
          \<and> Base32ToUint64 s = push_bit 4 (drop_bit 4 (geohashInt conv lat lng)))"
proof -
  obtain s where s: "uint64ToBase32 (geohashInt conv lat lng) = Inr s"
    by (simp add: uint64ToBase32_eq)
  from Base32ToUint64_uint64ToBase32 [OF s] s
  have "\<exists>s. Encode conv lat lng = Inr s
          \<and> Base32ToUint64 s = push_bit 4 (drop_bit 4 (geohashInt conv lat lng))"
    by (simp add: Encode_via_geohashInt)
  moreover have "bit (geohashInt conv lat lng) n
      = (if even n then bit (mapTo32Bits conv (fl64 (fl64 (lat - minLat) / (maxLat - minLat)))) (n div 2)
         else bit (mapTo32Bits conv (fl64 (fl64 (lng - minLong) / (maxLong - minLong)))) (n div 2))" for n
    unfolding geohashInt_def by (rule interleave32Bits_bit)
  ultimately show ?thesis
    by (simp add: Encode_via_geohashInt)
qed

text \<open>
  C1, amended. For \<open>lat\<close> from \<open>-90\<close> to \<open>90 - 2 ^ - 44\<close> and \<open>lng\<close> from \<open>-180\<close> to
  \<open>180 - 2 ^ - 43\<close>, \<open>Encode\<close> returns a string, and \<open>Decode\<close> of it is below the input by
  less than \<open>4 * (180 / 2 ^ 32) + 2 ^ - 44\<close> in latitude and
  \<open>4 * (360 / 2 ^ 32) + 2 ^ - 43\<close> in longitude, and above it by at most \<open>2 ^ - 44\<close> and
  \<open>2 ^ - 43\<close>: four quantisation steps for the two bits of each fraction that the string
  drops, and the rounding of the subtraction and the division in \<open>Encode\<close>.
\<close>

theorem Decode_Encode_bound:
  assumes "- 90 \<le> lat" "lat \<le> 90 - 1 / 2 ^ 44" "- 180 \<le> lng" "lng \<le> 180 - 1 / 2 ^ 43"
  shows "\<exists>s. Encode conv lat lng = Inr s
     \<and> fst (Decode s) - lat \<le> 1 / 2 ^ 44
     \<and> lat - fst (Decode s) < 4 * (180 / 2 ^ 32) + 1 / 2 ^ 44
     \<and> snd (Decode s) - lng \<le> 1 / 2 ^ 43
     \<and> lng - snd (Decode s) < 4 * (360 / 2 ^ 32) + 1 / 2 ^ 43"
proof -
  define x where "x = fl64 (fl64 (lat - minLat) / (maxLat - minLat))"
  define y where "y = fl64 (fl64 (lng - minLong) / (maxLong - minLong))"
  have wx: "maxLat - minLat = 180" and wy: "maxLong - minLong = 360"
    by (simp_all add: minLat_def maxLat_def minLong_def maxLong_def)
  have cx: "(180 :: real) / (45 * 2 ^ 46) = 1 / 2 ^ 44"
    and cy: "(360 :: real) / (45 * 2 ^ 46) = 1 / 2 ^ 43"
    by simp_all
  have lx: "0 \<le> lat - minLat" "lat - minLat \<le> 180 - 180 / (45 * 2 ^ 46)"
    unfolding cx using assms(1,2) by (simp_all add: minLat_def)
  have ly: "0 \<le> lng - minLong" "lng - minLong \<le> 360 - 360 / (45 * 2 ^ 46)"
    unfolding cy using assms(3,4) by (simp_all add: minLong_def)
  have x: "0 \<le> x" "x < 1" and ex: "\<bar>x * 180 - (lat - minLat)\<bar> \<le> 1 / 2 ^ 44"
    unfolding x_def wx cx [symmetric] by (rule fraction_bounds [OF _ lx], simp)+
  have y: "0 \<le> y" "y < 1" and ey: "\<bar>y * 360 - (lng - minLong)\<bar> \<le> 1 / 2 ^ 43"
    unfolding y_def wy cy [symmetric] by (rule fraction_bounds [OF _ ly], simp)+
  obtain s where s: "Encode conv lat lng = Inr s"
    by (auto simp: Encode_via_geohashInt uint64ToBase32_eq)
  define a where "a = real (4 * (nat \<lfloor>2 ^ 32 * x\<rfloor> div 4)) / 2 ^ 32 * 180"
  define b where "b = real (4 * (nat \<lfloor>2 ^ 32 * y\<rfloor> div 4)) / 2 ^ 32 * 360"
  have "Decode s =
     (real (4 * (unat (mapTo32Bits conv x) div 4)) / 2 ^ 32 * (maxLat - minLat) + minLat,
      real (4 * (unat (mapTo32Bits conv y) div 4)) / 2 ^ 32 * (maxLong - minLong) + minLong)"
    unfolding Decode_of_Encode [OF s] x_def y_def by (rule refl)
  then have "Decode s = (a + minLat, b + minLong)"
    unfolding mapTo32Bits_in_range(2) [OF x] mapTo32Bits_in_range(2) [OF y] wx wy a_def b_def .
  then have fa: "fst (Decode s) = a + minLat" and fb: "snd (Decode s) = b + minLong"
    by simp_all
  have a1: "a \<le> x * 180" unfolding a_def by (rule quantise_bound(1) [OF x]) simp
  have a2: "x * 180 - a < 4 * (180 / 2 ^ 32)" unfolding a_def by (rule quantise_bound(2) [OF x]) simp
  have b1: "b \<le> y * 360" unfolding b_def by (rule quantise_bound(1) [OF y]) simp
  have b2: "y * 360 - b < 4 * (360 / 2 ^ 32)" unfolding b_def by (rule quantise_bound(2) [OF y]) simp
  have "fst (Decode s) - lat \<le> 1 / 2 ^ 44" "lat - fst (Decode s) < 4 * (180 / 2 ^ 32) + 1 / 2 ^ 44"
    unfolding fa using a1 a2 ex by linarith+
  moreover have "snd (Decode s) - lng \<le> 1 / 2 ^ 43" "lng - snd (Decode s) < 4 * (360 / 2 ^ 32) + 1 / 2 ^ 43"
    unfolding fb using b1 b2 ey by linarith+
  ultimately show ?thesis using s by blast
qed

theorem Decode_Encode_bound_witness:
  "(- 90 \<le> (0::real) \<and> (0::real) \<le> 90 - 1 / 2 ^ 44 \<and> - 180 \<le> (0::real) \<and> (0::real) \<le> 180 - 1 / 2 ^ 43)
   \<and> (\<exists>s. Encode truncate64 0 0 = Inr s
     \<and> fst (Decode s) - 0 \<le> 1 / 2 ^ 44
     \<and> 0 - fst (Decode s) < 4 * (180 / 2 ^ 32) + 1 / 2 ^ 44
     \<and> snd (Decode s) - 0 \<le> 1 / 2 ^ 43
     \<and> 0 - snd (Decode s) < 4 * (360 / 2 ^ 32) + 1 / 2 ^ 43)"
  using Decode_Encode_bound [of 0 0 truncate64] by simp

text \<open>
  Two inputs at which the rounding in \<open>Encode\<close> shows. Just below the upper end,
  \<open>lat + 90\<close> is a tie and rounds to \<open>180\<close>, the fraction is \<open>1\<close>, and the latitude comes
  back as \<open>- 90\<close>. Just below zero, \<open>lat + 90\<close> rounds to \<open>90\<close> and the latitude comes
  back as \<open>0\<close>, above the input.
\<close>

lemma Encode_rounding_examples:
  "Encode truncate64 (90 - 1 / 2 ^ 46) 0 = Inr ''h00000000000''"
  "Decode ''h00000000000'' = (- 90, 0)"
  "Encode conv (- (1 / 2 ^ 60)) 0 = Inr ''s00000000000''"
  "Decode ''s00000000000'' = (0, 0)"
proof -
  have tie: "fl64 (180 - 1 / 2 ^ 46) = 180"
    by (subst fl64_above_one [of 7]) (simp_all add: rne_def)
  have near: "fl64 (90 - 1 / 2 ^ 60) = 90"
    by (subst fl64_above_one [of 6]) (simp_all add: rne_def)
  have one: "mapTo32Bits truncate64 1 = 0"
    by (simp add: mapTo32Bits_def truncate64_def word_of_int_eq_0_iff)
  have half: "mapTo32Bits c (1 / 2) = 2147483648" for c
    by (simp add: mapTo32Bits_def)
  have k1: "interleave32Bits 0 2147483648 = 9223372036854775808"
    and k2: "interleave32Bits 2147483648 2147483648 = 13835058055282163712"
    by (simp_all add: interleave32Bits_def interleave32Bits_loop.simps)
  have s1: "uint64ToBase32 9223372036854775808 = Inr ''h00000000000''"
    and s2: "uint64ToBase32 13835058055282163712 = Inr ''s00000000000''"
    by (simp_all add: uint64ToBase32_def uint64ToBase32_loop.simps alphabet_def)
  have a1: "(90 - 1 / 2 ^ 46 :: real) - minLat = 180 - 1 / 2 ^ 46"
    and a2: "(- (1 / 2 ^ 60) :: real) - minLat = 90 - 1 / 2 ^ 60"
    and a3: "(0 :: real) - minLong = 180"
    and w: "maxLat - minLat = 180" "maxLong - minLong = 360"
    by (simp_all add: minLat_def maxLat_def minLong_def maxLong_def)
  have f: "fl64 (fl64 ((90 - 1 / 2 ^ 46) - minLat) / (maxLat - minLat)) = 1"
    "fl64 (fl64 (- (1 / 2 ^ 60) - minLat) / (maxLat - minLat)) = 1 / 2"
    "fl64 (fl64 (0 - minLong) / (maxLong - minLong)) = 1 / 2"
    unfolding a1 a2 a3 w tie near by (simp_all add: fl64_exact)
  show e1: "Encode truncate64 (90 - 1 / 2 ^ 46) 0 = Inr ''h00000000000''"
    unfolding Encode_via_geohashInt geohashInt_def f one half k1 by (rule s1)
  show e2: "Encode conv (- (1 / 2 ^ 60)) 0 = Inr ''s00000000000''"
    unfolding Encode_via_geohashInt geohashInt_def f half k2 by (rule s2)
  show "Decode ''h00000000000'' = (- 90, 0)"
    unfolding Decode_of_Encode [OF e1] f one half
    by (simp add: minLat_def maxLat_def minLong_def maxLong_def)
  show "Decode ''s00000000000'' = (0, 0)"
    unfolding Decode_of_Encode [OF e2] f half
    by (simp add: minLat_def maxLat_def minLong_def maxLong_def)
qed

lemma interleave_zero: "interleave32Bits 0 0 = 0"
  by (rule bit_eqI) (simp add: interleave32Bits_bit)

lemma base32_zero: "uint64ToBase32 0 = Inr ''000000000000''"
  by (simp add: uint64ToBase32_def uint64ToBase32_loop.simps alphabet_def)

lemma Decode_zeros: "Decode ''000000000000'' = (- 90, - 180)"
proof -
  have "Base32ToUint64 ''000000000000'' = 0"
    using Base32ToUint64_uint64ToBase32 [OF base32_zero] by simp
  moreover have "DeInterleave64Bits 0 = (0, 0)"
    using DeInterleave64Bits_truncated [of 0 0] by (simp add: interleave_zero)
  ultimately show ?thesis
    by (simp add: Decode_def minLat_def maxLat_def minLong_def maxLong_def)
qed

text \<open>
  C5. At the corner \<open>(90, 180)\<close> both fractions are \<open>1\<close>, so \<open>mapTo32Bits\<close> converts
  \<open>2 ^ 32\<close>, which \<^verbatim>\<open>uint32\<close> cannot hold, and \<open>Encode\<close> returns whatever the
  conversion makes of it. With the truncating conversion the result is the geohash
  of the opposite corner, \<open>(-90, -180)\<close>, and decodes to that corner.
\<close>

theorem Encode_upper_corner:
  "Encode conv 90 180 = uint64ToBase32 (interleave32Bits (conv (2 ^ 32)) (conv (2 ^ 32)))
   \<and> Encode truncate64 90 180 = Inr ''000000000000''
   \<and> Decode ''000000000000'' = (- 90, - 180)
   \<and> Encode conv (- 90) (- 180) = Inr ''000000000000''"
proof (intro conjI)
  have one: "mapTo32Bits c 1 = c (2 ^ 32)" for c
    by (simp add: mapTo32Bits_def)
  have zero: "mapTo32Bits c 0 = 0" for c
    by (simp add: mapTo32Bits_def)
  have t: "truncate64 (2 ^ 32) = 0"
    by (simp add: truncate64_def word_of_int_eq_0_iff)
  show e: "Encode c 90 180 = uint64ToBase32 (interleave32Bits (c (2 ^ 32)) (c (2 ^ 32)))" for c
    by (simp add: Encode_def minLat_def maxLat_def minLong_def maxLong_def fl64_exact one)
  show "Encode truncate64 90 180 = Inr ''000000000000''"
    unfolding e t interleave_zero by (rule base32_zero)
  show "Decode ''000000000000'' = (- 90, - 180)"
    by (rule Decode_zeros)
  show "Encode conv (- 90) (- 180) = Inr ''000000000000''"
    by (simp add: Encode_def minLat_def maxLat_def minLong_def maxLong_def fl64_exact zero
        interleave_zero base32_zero)
qed

subsection \<open>Validation of a geohash\<close>

lemma decodeRune_ascii: "(of_char c :: nat) < 128 \<Longrightarrow> decodeRune (c # cs) = (of_char c, 1)"
  by simp

lemma mod_window:
  fixes b d q lo :: nat
  assumes "d * q + lo \<le> b" "b < d * q + d"
  shows "lo \<le> b mod d"
proof -
  define k where "k = b - d * q"
  have b: "b = d * q + k" and k: "k < d" and lo: "lo \<le> k"
    using assms by (simp_all add: k_def)
  have "b mod d = k mod d" unfolding b by (rule mod_mult_self4)
  also have "\<dots> = k" using k by (rule mod_less)
  finally show ?thesis using lo by simp
qed

lemma decodeRune_non_ascii:
  assumes "128 \<le> (of_char c :: nat)"
  shows "128 \<le> fst (decodeRune (c # cs))"
proof -
  define b0 where "b0 = (of_char c :: nat)"
  have re: "128 \<le> fst (RuneError, w)" for w :: nat by (simp add: RuneError_def)
  consider (two) "194 \<le> b0" "b0 < 224" | (three) "224 \<le> b0" "b0 < 240"
    | (four) "240 \<le> b0" "b0 < 245" | (bad) "b0 < 194 \<or> 245 \<le> b0"
    by linarith
  then show ?thesis
  proof cases
    case two
    then have eq: "decodeRune (c # cs) =
       (case cs of
           c1 # _ \<Rightarrow>
             if cont_byte c1 then ((b0 mod 32) * 64 + of_char c1 mod 64, 2)
             else (RuneError, 1)
         | _ \<Rightarrow> (RuneError, 1))"
      unfolding b0_def by (simp add: Let_def)
    from two have "2 \<le> b0 mod 32" by (intro mod_window [of 32 6]) simp_all
    then have "128 \<le> (b0 mod 32) * 64 + x" for x :: nat by linarith
    then show ?thesis
      unfolding eq by (cases cs) (simp_all add: RuneError_def)
  next
    case three
    then have eq: "decodeRune (c # cs) =
        (case cs of
           c1 # c2 # _ \<Rightarrow>
             if (if b0 = 224 then 160 else 128) \<le> (of_char c1 :: nat)
                \<and> (of_char c1 :: nat) \<le> (if b0 = 237 then 159 else 191) \<and> cont_byte c2
             then ((b0 mod 16) * 4096 + (of_char c1 mod 64) * 64 + of_char c2 mod 64, 3)
             else (RuneError, 1)
         | _ \<Rightarrow> (RuneError, 1))"
      unfolding b0_def by (simp add: Let_def)
    have big: "128 \<le> (b0 mod 16) * 4096 + (b1 mod 64) * 64 + x"
      if "(if b0 = 224 then 160 else 128) \<le> b1" "b1 \<le> (if b0 = 237 then 159 else 191)"
      for b1 x :: nat
    proof (cases "b0 = 224")
      case True
      with that have "32 \<le> b1 mod 64" by (intro mod_window [of 64 2]) simp_all
      then show ?thesis by linarith
    next
      case False
      with three have "1 \<le> b0 mod 16" by (intro mod_window [of 16 14]) simp_all
      then show ?thesis by linarith
    qed
    show ?thesis
    proof (cases cs)
      case Nil
      then show ?thesis unfolding eq by (simp add: RuneError_def)
    next
      case (Cons c1 cs1)
      then show ?thesis unfolding eq by (cases cs1) (simp_all add: RuneError_def big)
    qed
  next
    case four
    then have eq: "decodeRune (c # cs) =
        (case cs of
           c1 # c2 # c3 # _ \<Rightarrow>
             if (if b0 = 240 then 144 else 128) \<le> (of_char c1 :: nat)
                \<and> (of_char c1 :: nat) \<le> (if b0 = 244 then 143 else 191)
                \<and> cont_byte c2 \<and> cont_byte c3
             then ((b0 mod 8) * 262144 + (of_char c1 mod 64) * 4096
                    + (of_char c2 mod 64) * 64 + of_char c3 mod 64, 4)
             else (RuneError, 1)
         | _ \<Rightarrow> (RuneError, 1))"
      unfolding b0_def by (simp add: Let_def)
    have big: "128 \<le> (b0 mod 8) * 262144 + (b1 mod 64) * 4096 + x + y"
      if "(if b0 = 240 then 144 else 128) \<le> b1" "b1 \<le> (if b0 = 244 then 143 else 191)"
      for b1 x y :: nat
    proof (cases "b0 = 240")
      case True
      with that have "16 \<le> b1 mod 64" by (intro mod_window [of 64 2]) simp_all
      then show ?thesis by linarith
    next
      case False
      with four have "1 \<le> b0 mod 8" by (intro mod_window [of 8 30]) simp_all
      then show ?thesis by linarith
    qed
    show ?thesis
    proof (cases cs)
      case Nil
      then show ?thesis unfolding eq by (simp add: RuneError_def)
    next
      case (Cons c1 cs1)
      show ?thesis
      proof (cases cs1)
        case Nil
        with Cons show ?thesis unfolding eq by (simp add: RuneError_def)
      next
        case (Cons c2 cs2)
        with \<open>cs = c1 # cs1\<close> show ?thesis unfolding eq by (cases cs2) (simp_all add: RuneError_def big)
      qed
    qed
  next
    case bad
    with assms have "decodeRune (c # cs) = (RuneError, 1)"
      by (auto simp add: b0_def Let_def)
    then show ?thesis by (simp add: RuneError_def)
  qed
qed

lemma alphabetIndex_decodeRune:
  "alphabetIndex (fst (decodeRune (c # cs))) = - 1 \<longleftrightarrow> c \<notin> set alphabet"
proof (cases "(of_char c :: nat) < 128")
  case True
  then show ?thesis by (simp add: alphabetIndex_neg)
next
  case False
  then have "128 \<le> fst (decodeRune (c # cs))"
    by (intro decodeRune_non_ascii) simp
  then have "alphabetIndex (fst (decodeRune (c # cs))) = - 1"
    by (simp add: alphabetIndex_def)
  moreover have "c \<notin> set alphabet"
    using False alphabet_ascii [of c] by auto
  ultimately show ?thesis by simp
qed

lemma ParseGeohash_loop_bad:
  "c \<notin> set alphabet \<Longrightarrow>
     ParseGeohash_loop (range_from i (c # rest)) = Some (InvalidCharacter (fst (decodeRune (c # rest))) i)"
  using alphabetIndex_decodeRune [of c rest]
  by (subst range_from.simps) (simp add: Let_def del: decodeRune.simps)

lemma ParseGeohash_loop_prefix:
  "set pre \<subseteq> set alphabet \<Longrightarrow>
     ParseGeohash_loop (range_from i (pre @ s)) = ParseGeohash_loop (range_from (i + length pre) s)"
proof (induction pre arbitrary: i)
  case Nil
  then show ?case by simp
next
  case (Cons c pre)
  then have c: "c \<in> set alphabet" and pre: "set pre \<subseteq> set alphabet" by simp_all
  have asc: "(of_char c :: nat) < 128" using c by (rule alphabet_ascii)
  have "alphabetIndex (of_char c) \<noteq> - 1" using c by (simp add: alphabetIndex_neg)
  then have "ParseGeohash_loop (range_from i ((c # pre) @ s))
      = ParseGeohash_loop (range_from (i + 1) (pre @ s))"
    using asc by (subst range_from.simps) (simp add: Let_def)
  also have "\<dots> = ParseGeohash_loop (range_from (i + 1 + length pre) s)"
    by (rule Cons.IH [OF pre])
  finally show ?case by simp
qed

lemma ParseGeohash_None_iff: "ParseGeohash hash = None \<longleftrightarrow> set hash \<subseteq> set alphabet"
proof
  assume ok: "set hash \<subseteq> set alphabet"
  have "range_from n [] = []" for n by (subst range_from.simps) simp
  with ParseGeohash_loop_prefix [OF ok, of 0 "[]"] show "ParseGeohash hash = None"
    by (simp add: ParseGeohash_def range_string_def)
next
  assume none: "ParseGeohash hash = None"
  show "set hash \<subseteq> set alphabet"
  proof (rule ccontr)
    assume "\<not> set hash \<subseteq> set alphabet"
    then have "\<exists>c \<in> set hash. c \<notin> set alphabet" by auto
    then obtain pre c rest where h: "hash = pre @ c # rest" and c: "c \<notin> set alphabet"
      and pre: "\<forall>y \<in> set pre. \<not> y \<notin> set alphabet"
      by (auto dest!: split_list_first_prop)
    from pre have "set pre \<subseteq> set alphabet" by auto
    from ParseGeohash_loop_prefix [OF this, of 0 "c # rest"] ParseGeohash_loop_bad [OF c]
    have "ParseGeohash hash \<noteq> None"
      by (simp add: ParseGeohash_def range_string_def h)
    with none show False by simp
  qed
qed

text \<open>
  C10. \<open>ParseGeohash\<close> checks membership in the alphabet and nothing else: it returns no
  error exactly for the strings, of any length and the empty one among them, whose bytes
  are all in the alphabet; otherwise its error carries the rune at the first byte outside
  the alphabet and the index of that byte. On a validated string of any length
  \<open>Base32ToUint64\<close> folds in every character that is there, and \<open>Decode\<close> converts
  whatever key comes out: nothing looks at the length.
\<close>

theorem ParseGeohash_alphabet_only:
  "(ParseGeohash hash = None \<longleftrightarrow> set hash \<subseteq> set alphabet)
   \<and> ParseGeohash [] = None
   \<and> (set pre \<subseteq> set alphabet \<and> c \<notin> set alphabet \<longrightarrow>
        ParseGeohash (pre @ c # rest)
          = Some (InvalidCharacter (fst (decodeRune (c # rest))) (length pre)))
   \<and> (set hash \<subseteq> set alphabet \<longrightarrow>
        Base32ToUint64 hash
          = push_bit 4 (foldl (\<lambda>result c. push_bit 5 result OR word_of_int (IndexByte alphabet c)) 0 hash))
   \<and> Decode hash
        = (real (unat (fst (DeInterleave64Bits (Base32ToUint64 hash)))) / 2 ^ 32 * 180 - 90,
           real (unat (snd (DeInterleave64Bits (Base32ToUint64 hash)))) / 2 ^ 32 * 360 - 180)"
proof (intro conjI impI)
  show "Decode hash
        = (real (unat (fst (DeInterleave64Bits (Base32ToUint64 hash)))) / 2 ^ 32 * 180 - 90,
           real (unat (snd (DeInterleave64Bits (Base32ToUint64 hash)))) / 2 ^ 32 * 360 - 180)"
    by (simp add: Decode_def Let_def case_prod_unfold minLat_def maxLat_def minLong_def maxLong_def)
  show "ParseGeohash hash = None \<longleftrightarrow> set hash \<subseteq> set alphabet"
    by (rule ParseGeohash_None_iff)
  show "ParseGeohash [] = None"
    by (simp add: ParseGeohash_None_iff)
  show "ParseGeohash (pre @ c # rest)
          = Some (InvalidCharacter (fst (decodeRune (c # rest))) (length pre))"
    if "set pre \<subseteq> set alphabet \<and> c \<notin> set alphabet"
    using that ParseGeohash_loop_prefix [of pre 0 "c # rest"] ParseGeohash_loop_bad [of c "length pre" rest]
    by (simp add: ParseGeohash_def range_string_def)
  show "Base32ToUint64 hash
          = push_bit 4 (foldl (\<lambda>result c. push_bit 5 result OR word_of_int (IndexByte alphabet c)) 0 hash)"
    if "set hash \<subseteq> set alphabet"
    using that by (rule Base32ToUint64_valid)
qed

theorem ParseGeohash_alphabet_only_witness:
  "(set ''w7'' \<subseteq> set alphabet \<and> CHR ''a'' \<notin> set alphabet)
   \<and> ParseGeohash ''w7'' = None
   \<and> ParseGeohash ''w7ax'' = Some (InvalidCharacter 97 2)
   \<and> Base32ToUint64 ''w7'' = 14448"
  using ParseGeohash_alphabet_only [of "''w7''" "''w7''" "CHR ''a''" "''x''"]
  by (simp add: alphabet_def)

subsection \<open>The length estimate\<close>

lemma mercatorMax_pos: "0 < mercatorMax"
  by (simp add: mercatorMax_eq)

lemma loop_leaves:
  "mercatorMax \<le> r * 2 ^ n \<Longrightarrow> (\<And>m. m < n \<Longrightarrow> r * 2 ^ m < mercatorMax) \<Longrightarrow>
     EstimateLengthRequired_loop r p = Some (p + 2 * int n)"
proof (induction n arbitrary: r p)
  case 0
  then have "\<not> r < mercatorMax" by simp
  then show ?case by (subst EstimateLengthRequired_loop.simps) simp
next
  case (Suc n)
  from Suc.prems(2) [of 0] have lt: "r < mercatorMax" by simp
  have "EstimateLengthRequired_loop (r * 2) (p + 2) = Some (p + 2 + 2 * int n)"
  proof (rule Suc.IH)
    show "mercatorMax \<le> r * 2 * 2 ^ n" using Suc.prems(1) by (simp add: mult.assoc)
    show "r * 2 * 2 ^ m < mercatorMax" if "m < n" for m
      using Suc.prems(2) [of "Suc m"] that by (simp add: mult.assoc)
  qed
  with lt show ?case by (subst EstimateLengthRequired_loop.simps) simp
qed

lemma loop_Some_pos:
  assumes "EstimateLengthRequired_loop r p = Some q"
  shows "0 < r"
proof (rule EstimateLengthRequired_loop.raw_induct [where P = "\<lambda>r p q. 0 < r"])
  show "EstimateLengthRequired_loop r p = Some q" by fact
next
  fix f :: "real \<Rightarrow> int \<Rightarrow> int option" and r :: real and p q :: int
  assume IH: "\<And>r p q. f r p = Some q \<Longrightarrow> 0 < r"
    and step: "(if r < mercatorMax then f (r * 2) (p + 2) else Some p) = Some q"
  show "0 < r"
  proof (cases "r < mercatorMax")
    case True
    with step have "f (r * 2) (p + 2) = Some q" by simp
    then have "0 < r * 2" by (rule IH)
    then show ?thesis by simp
  next
    case False
    with mercatorMax_pos show ?thesis by linarith
  qed
qed

lemma doublings_exist:
  assumes "0 < r"
  shows "\<exists>n. mercatorMax \<le> r * 2 ^ n \<and> (\<forall>m<n. r * 2 ^ m < mercatorMax)"
proof -
  obtain k where "mercatorMax / r < 2 ^ k"
    using real_arch_pow [of 2 "mercatorMax / r"] by auto
  then have ex: "\<exists>k. mercatorMax \<le> r * 2 ^ k"
    using assms by (auto simp: field_simps intro: less_imp_le)
  define n where "n = (LEAST k. mercatorMax \<le> r * 2 ^ k)"
  have "mercatorMax \<le> r * 2 ^ n"
    unfolding n_def using ex by (rule LeastI_ex)
  moreover have "r * 2 ^ m < mercatorMax" if "m < n" for m
    using not_less_Least [of m "\<lambda>k. mercatorMax \<le> r * 2 ^ k"] that
    by (simp add: n_def not_le)
  ultimately show ?thesis by blast
qed

text \<open>
  C7, amended. For every \<open>r \<ge> 0\<close> the function returns, and its result is between 1
  and 12. For \<open>r = 0\<close> it is 12. For \<open>r > 0\<close> let \<open>n\<close> be the number of doublings
  after which the accumulator first reaches \<open>mercatorMax\<close>, the \<^verbatim>\<open>float64\<close> nearest to
  \<open>20037.73\<close>; the counter advances by 2 at each doubling, so the result is
  \<open>2 n div 5\<close>, clamped to \<open>[1, 12]\<close>.
\<close>

theorem EstimateLengthRequired_result:
  assumes "0 \<le> r"
  shows "\<exists>l. EstimateLengthRequired r = Some l \<and> 1 \<le> l \<and> l \<le> 12
     \<and> (if r = 0 then l = 12
        else (\<exists>n. mercatorMax \<le> r * 2 ^ n \<and> (\<forall>m<n. r * 2 ^ m < mercatorMax)
                \<and> l = max 1 (min 12 ((2 * int n) div 5))))"
proof (cases "r = 0")
  case True
  then show ?thesis by (simp add: EstimateLengthRequired_def maxLength_def)
next
  case False
  with assms have "0 < r" by simp
  then obtain n where n: "mercatorMax \<le> r * 2 ^ n" "\<forall>m<n. r * 2 ^ m < mercatorMax"
    using doublings_exist by blast
  then have "EstimateLengthRequired_loop r 0 = Some (0 + 2 * int n)"
    by (intro loop_leaves) auto
  then have "EstimateLengthRequired r = Some (max 1 (min 12 ((2 * int n) div 5)))"
    using False by (auto simp: EstimateLengthRequired_def maxLength_def Let_def)
  with False n show ?thesis by auto
qed

theorem EstimateLengthRequired_result_witness:
  "(0::real) \<le> 1
   \<and> (\<exists>l. EstimateLengthRequired 1 = Some l \<and> 1 \<le> l \<and> l \<le> 12
        \<and> (\<exists>n. mercatorMax \<le> 1 * 2 ^ n \<and> (\<forall>m<n. 1 * 2 ^ m < mercatorMax)
                \<and> l = max 1 (min 12 ((2 * int n) div 5))))"
  using EstimateLengthRequired_result [of 1] by simp

text \<open>
  The bound of the loop is the rounded constant, which is below the decimal: a sixteenth of
  it reaches the bound after 4 doublings, not 5, and the result is 1.
\<close>

lemma EstimateLengthRequired_at_sixteenth:
  "EstimateLengthRequired (5507929282308997 / 2 ^ 42) = Some 1"
proof -
  have "EstimateLengthRequired_loop (5507929282308997 / 2 ^ 42) 0 = Some 8"
    by (simp add: EstimateLengthRequired_loop.simps mercatorMax_eq)
  then show ?thesis
    by (simp add: EstimateLengthRequired_def maxLength_def)
qed

text \<open>
  C7, as stated, fails twice. For \<open>r = - 1\<close> the accumulator stays negative and the loop
  never ends. For \<open>r = 1\<close> there are 15 doublings (\<open>2 ^ 14 < mercatorMax \<le> 2 ^ 15\<close>) and
  the result is 6, where 15 doubling steps divided by 5 would give 3.
\<close>

theorem EstimateLengthRequired_counterexample:
  "EstimateLengthRequired (- 1) = None \<and> EstimateLengthRequired 1 = Some 6
   \<and> mercatorMax \<le> 1 * 2 ^ 15 \<and> 1 * 2 ^ 14 < mercatorMax \<and> (15::int) div 5 = 3"
proof (intro conjI)
  have "EstimateLengthRequired_loop (- 1) 0 = None"
    using loop_Some_pos [of "- 1" 0] by (cases "EstimateLengthRequired_loop (- 1) 0") auto
  then show "EstimateLengthRequired (- 1) = None"
    by (simp add: EstimateLengthRequired_def)
  have "EstimateLengthRequired_loop 1 0 = Some 30"
    by (simp add: EstimateLengthRequired_loop.simps mercatorMax_eq)
  then show "EstimateLengthRequired 1 = Some 6"
    by (simp add: EstimateLengthRequired_def maxLength_def)
qed (simp_all add: mercatorMax_eq)

subsection \<open>The bounding box\<close>

text \<open>
  C6. The four values are the ones the claim names, but \<open>BoundingBox\<close> returns them in the
  order (minLat, minLng, maxLat, maxLng); the order (minLat, maxLat, minLng, maxLng) is that
  of the bundled copy. At \<open>(0, 0)\<close> with radius \<open>111.1\<close> the second result of
  \<open>BoundingBox\<close> is the least longitude, not the greatest latitude \<open>1\<close>.
\<close>

theorem BoundingBox_order:
  "BoundingBox lat lng r
     = (lat - r / 111.1, lng - r / (111.320 * cos (lat / 180 * pi)),
        lat + r / 111.1, lng + r / (111.320 * cos (lat / 180 * pi)))
   \<and> BoundingBox_copy lat lng r
     = (lat - r / 111.1, lat + r / 111.1,
        lng - r / (111.320 * cos (lat / 180 * pi)), lng + r / (111.320 * cos (lat / 180 * pi)))
   \<and> BoundingBox 0 0 111.1 = (- 1, - (111.1 / 111.32), 1, 111.1 / 111.32)
   \<and> BoundingBox_copy 0 0 111.1 = (- 1, 1, - (111.1 / 111.32), 111.1 / 111.32)"
  by (simp add: BoundingBox_def BoundingBox_copy_def lenOfADegreeOfLat_def lenOfADegreeOfLng_def Let_def)

subsection \<open>Parsing coordinates\<close>

lemma length_Split: "length (Split s sep) = Suc (count_list s sep)"
  by (induction s) (auto split: list.splits)

lemma ParseCoordinate_format:
  "count_list coords (CHR '','') \<noteq> 1 \<Longrightarrow>
     ParseCoordinate TrimSpace ParseFloat coords = Inl InvalidFormat"
  by (simp add: ParseCoordinate_def length_Split Let_def)

lemma ParseCoordinate_finite:
  assumes "Split coords (CHR '','') = [a, b]"
    and "ParseFloat (TrimSpace a) = Inr (Finite x)"
    and "ParseFloat (TrimSpace b) = Inr (Finite y)"
  shows "ParseCoordinate TrimSpace ParseFloat coords =
     (if x < - 90 \<or> 90 < x then Inl LatitudeOutOfRange
      else if y < - 180 \<or> 180 < y then Inl LongitudeOutOfRange
      else Inr (Finite x, Finite y))"
  using assms
  by (simp add: ParseCoordinate_def Let_def minLat_def maxLat_def minLong_def maxLong_def)

text \<open>
  C8. \<^verbatim>\<open>strconv.ParseFloat\<close> reads \<^verbatim>\<open>NaN\<close> without an error, and every comparison of the
  range check is false on NaN: \<open>ParseCoordinate\<close> returns the pair \<open>(NaN, 0)\<close> for the
  input \<^verbatim>\<open>NaN, 0\<close> and no error, although NaN is not a latitude in \<open>[-90, 90]\<close>. The
  hypotheses state what the two library functions do on the substrings of this input.
\<close>

theorem ParseCoordinate_accepts_NaN:
  assumes "TrimSpace ''NaN'' = ''NaN''" and "TrimSpace '' 0'' = ''0''"
    and "ParseFloat ''NaN'' = Inr NaN" and "ParseFloat ''0'' = Inr (Finite 0)"
  shows "ParseCoordinate TrimSpace ParseFloat ''NaN, 0'' = Inr (NaN, Finite 0)"
  using assms
  by (simp add: ParseCoordinate_def Let_def minLat_def maxLat_def minLong_def maxLong_def)

theorem ParseCoordinate_accepts_NaN_witness:
  "ParseCoordinate (filter (\<lambda>c. c \<noteq> CHR '' ''))
     (\<lambda>s. if s = ''NaN'' then Inr NaN else Inr (Finite 0)) ''NaN, 0'' = Inr (NaN, Finite 0)"
  using ParseCoordinate_accepts_NaN [of "filter (\<lambda>c. c \<noteq> CHR '' '')"
      "\<lambda>s. if s = ''NaN'' then Inr NaN else Inr (Finite 0)"]
  by simp

end
